theory Spec2Isabelle
  imports Complex_Main "HOL-Library.Sublist" "HOL-Library.Char_ord" "HOL-Library.List_Lexorder"
    "HOL-Library.Multiset"
begin

section \<open>String helpers of the JavaScript runtime\<close>

text \<open>
  \<open>String.prototype.includes\<close>: does \<open>sub\<close> occur in \<open>s\<close> as a contiguous run.
\<close>

fun str_includes :: "string \<Rightarrow> string \<Rightarrow> bool" where
  "str_includes [] sub = (sub = [])"
| "str_includes (c # cs) sub = (prefix sub (c # cs) \<or> str_includes cs sub)"

text \<open>
  \<open>String.prototype.split(sep)\<close> for a one-character separator: the empty string gives
  one empty piece, and a trailing separator gives a trailing empty piece.
\<close>

fun split_on :: "char \<Rightarrow> string \<Rightarrow> string list" where
  "split_on sep [] = [[]]"
| "split_on sep (c # cs) =
     (if c = sep then [] # split_on sep cs
      else (case split_on sep cs of
              [] \<Rightarrow> [[c]]
            | w # ws \<Rightarrow> (c # w) # ws))"

definition is_space :: "char \<Rightarrow> bool" where
  "is_space c = (c = CHR '' '' \<or> c = CHR 0x09 \<or> c = CHR 0x0A \<or> c = CHR 0x0B
                 \<or> c = CHR 0x0C \<or> c = CHR 0x0D)"

text \<open>\<open>String.prototype.trim\<close> on ASCII white space and line terminators.\<close>

definition trim :: "string \<Rightarrow> string" where
  "trim s = rev (dropWhile is_space (rev (dropWhile is_space s)))"

text \<open>Decimal rendering of a non-negative integer, as a template literal prints it.\<close>

definition digit_char :: "nat \<Rightarrow> char" where
  "digit_char d = ''0123456789'' ! d"

fun dec :: "nat \<Rightarrow> string" where
  "dec n = (if n < 10 then [digit_char n] else dec (n div 10) @ [digit_char (n mod 10)])"

declare dec.simps [simp del]

text \<open>\<open>parseInt(s, 10)\<close> on a string of decimal digits.\<close>

definition digit_val :: "char \<Rightarrow> nat" where
  "digit_val c = of_char c - of_char (CHR ''0'')"

definition parseInt :: "string \<Rightarrow> nat" where
  "parseInt s = foldl (\<lambda>acc c. 10 * acc + digit_val c) 0 s"

section \<open>Event store (src/collector/eventStore.ts)\<close>

datatype EventType =
    EVENT_LOOP_STALL | MEMORY_LEAK | PROMISE_DEADLOCK | UNAWAITED_PROMISE
  | CPU_BLOCK | HANDLE_LEAK | ASYNC_RESOURCE_LEAK | SYSTEM_INFO

text \<open>The string value of each member of the enum.\<close>

fun type_name :: "EventType \<Rightarrow> string" where
  "type_name EVENT_LOOP_STALL = ''EVENT_LOOP_STALL''"
| "type_name MEMORY_LEAK = ''MEMORY_LEAK''"
| "type_name PROMISE_DEADLOCK = ''PROMISE_DEADLOCK''"
| "type_name UNAWAITED_PROMISE = ''UNAWAITED_PROMISE''"
| "type_name CPU_BLOCK = ''CPU_BLOCK''"
| "type_name HANDLE_LEAK = ''HANDLE_LEAK''"
| "type_name ASYNC_RESOURCE_LEAK = ''ASYNC_RESOURCE_LEAK''"
| "type_name SYSTEM_INFO = ''SYSTEM_INFO''"

datatype Severity = INFO | WARNING | ERROR | CRITICAL

text \<open>
  The payload \<open>data: any\<close>. The only fields the modelled code reads from it are
  \<open>file\<close>, \<open>line\<close> and \<open>message\<close>, each of which may be absent.
\<close>

record Payload =
  data_file :: "string option"
  data_line :: "nat option"
  data_message :: "string option"

record GuardianEvent =
  ev_id :: string
  ev_type :: EventType
  ev_timestamp :: int
  ev_severity :: Severity
  ev_source :: string
  ev_data :: Payload
  ev_stack :: "string option"
  ev_file :: "string option"
  ev_line :: "nat option"
  ev_suggestion :: "string option"

text \<open>The optional third argument of \<open>emit\<close>.\<close>

record EmitOptions =
  opt_severity :: "Severity option"
  opt_stack :: "string option"
  opt_file :: "string option"
  opt_line :: "nat option"
  opt_suggestion :: "string option"

text \<open>
  A subscriber \<open>(data: any) => void\<close>. What the store can observe of it is whether a call
  returns or throws; \<open>listener_id\<close> tells subscribers apart in the record of calls.
\<close>

datatype Listener = Listener (listener_id: nat) (throws: "GuardianEvent \<Rightarrow> bool")

text \<open>
  The store. \<open>eventEmitter\<close> holds the subscriptions of Node's \<open>EventEmitter\<close> in the
  order in which \<open>on\<close> registered them, each under its event name. \<open>maxEvents\<close> is the
  private constant 10000.
\<close>

record EventStore =
  events :: "GuardianEvent list"
  eventEmitter :: "(string \<times> Listener) list"
  eventCounter :: nat

definition maxEvents :: nat where
  "maxEvents = 10000"

definition new_EventStore :: EventStore where
  "new_EventStore = \<lparr>events = [], eventEmitter = [], eventCounter = 0\<rparr>"

fun inferSeverity :: "EventType \<Rightarrow> Severity" where
  "inferSeverity PROMISE_DEADLOCK = CRITICAL"
| "inferSeverity MEMORY_LEAK = CRITICAL"
| "inferSeverity EVENT_LOOP_STALL = ERROR"
| "inferSeverity CPU_BLOCK = ERROR"
| "inferSeverity HANDLE_LEAK = ERROR"
| "inferSeverity UNAWAITED_PROMISE = WARNING"
| "inferSeverity _ = INFO"

text \<open>The loop of \<open>extractSource\<close>: the first line that is a frame of user code.\<close>

fun first_user_line :: "string list \<Rightarrow> string option" where
  "first_user_line [] = None"
| "first_user_line (l # ls) =
     (if str_includes l ''at '' \<and> \<not> str_includes l ''node_modules'' \<and> \<not> str_includes l ''node:internal''
      then Some (trim l) else first_user_line ls)"

definition extractSource :: "string option \<Rightarrow> string" where
  "extractSource stack =
     (case stack of
        None \<Rightarrow> ''unknown''
      | Some st \<Rightarrow>
          if st = [] then ''unknown''
          else (let lines = split_on (CHR 0x0A) st in
                case first_user_line lines of
                  Some l \<Rightarrow> l
                | None \<Rightarrow>
                    if 1 < length lines \<and> trim (lines ! 1) \<noteq> [] then trim (lines ! 1)
                    else ''unknown''))"

definition event_id :: "nat \<Rightarrow> string" where
  "event_id n = ''evt_'' @ dec n"

text \<open>
  The object literal at the head of \<open>emit\<close>, built after \<open>++this.eventCounter\<close>; \<open>now\<close> is
  the value of \<open>Date.now()\<close>.
\<close>

definition new_event ::
  "EventStore \<Rightarrow> int \<Rightarrow> EventType \<Rightarrow> Payload \<Rightarrow> EmitOptions option \<Rightarrow> GuardianEvent" where
  "new_event s now ty d options =
     \<lparr>ev_id = event_id (eventCounter s + 1),
      ev_type = ty,
      ev_timestamp = now,
      ev_severity = (case Option.bind options opt_severity of
                       Some sev \<Rightarrow> sev
                     | None \<Rightarrow> inferSeverity ty),
      ev_source = extractSource (Option.bind options opt_stack),
      ev_data = d,
      ev_stack = Option.bind options opt_stack,
      ev_file = Option.bind options opt_file,
      ev_line = Option.bind options opt_line,
      ev_suggestion = Option.bind options opt_suggestion\<rparr>"

text \<open>
  \<open>EventEmitter.prototype.emit\<close> of the Node runtime: the listeners registered under the
  name are called synchronously, in registration order, and nothing catches what a
  listener throws, so the first throw ends the calls and leaves \<open>emit\<close>. The result is
  the list of listeners that were called and whether an exception left the call.
\<close>

fun call_listeners :: "Listener list \<Rightarrow> GuardianEvent \<Rightarrow> nat list \<times> bool" where
  "call_listeners [] ev = ([], False)"
| "call_listeners (l # ls) ev =
     (if throws l ev then ([listener_id l], True)
      else (case call_listeners ls ev of (called, exn) \<Rightarrow> (listener_id l # called, exn)))"

definition listeners_of :: "(string \<times> Listener) list \<Rightarrow> string \<Rightarrow> Listener list" where
  "listeners_of ee name = map snd (filter (\<lambda>p. fst p = name) ee)"

definition ee_emit ::
  "(string \<times> Listener) list \<Rightarrow> string \<Rightarrow> GuardianEvent \<Rightarrow> nat list \<times> bool" where
  "ee_emit ee name ev = call_listeners (listeners_of ee name) ev"

text \<open>
  \<open>EventStore.emit\<close>. The result is the store after the call, the listeners that were
  called, in order, and whether the call ended by an exception. The store is updated
  before any listener runs, so it is the same in both cases.
\<close>

definition emit ::
  "EventStore \<Rightarrow> int \<Rightarrow> EventType \<Rightarrow> Payload \<Rightarrow> EmitOptions option
     \<Rightarrow> EventStore \<times> nat list \<times> bool" where
  "emit s now ty d options =
     (let event = new_event s now ty d options;
          pushed = events s @ [event];
          kept = (if length pushed > maxEvents then tl pushed else pushed);
          s' = s\<lparr>events := kept, eventCounter := eventCounter s + 1\<rparr>
      in case ee_emit (eventEmitter s) ''event'' event of
           (called1, True) \<Rightarrow> (s', called1, True)
         | (called1, False) \<Rightarrow>
             (case ee_emit (eventEmitter s) (type_name ty) event of
                (called2, exn) \<Rightarrow> (s', called1 @ called2, exn)))"

definition on :: "EventStore \<Rightarrow> string \<Rightarrow> Listener \<Rightarrow> EventStore" where
  "on s name listener = s\<lparr>eventEmitter := eventEmitter s @ [(name, listener)]\<rparr>"

definition clear :: "EventStore \<Rightarrow> EventStore" where
  "clear s = s\<lparr>events := [], eventCounter := 0\<rparr>"

text \<open>
  \<open>getEventStats\<close>. The two \<open>Record<string, number>\<close> tables are maps; the keys are
  the event types and the severities.
\<close>

definition tally :: "'k \<Rightarrow> ('k \<rightharpoonup> nat) \<Rightarrow> ('k \<rightharpoonup> nat)" where
  "tally key tbl = tbl(key \<mapsto> (case tbl key of Some c \<Rightarrow> c | None \<Rightarrow> 0) + 1)"

record EventStats =
  total :: nat
  byType :: "EventType \<rightharpoonup> nat"
  bySeverity :: "Severity \<rightharpoonup> nat"

definition getEventStats :: "EventStore \<Rightarrow> EventStats" where
  "getEventStats s =
     \<lparr>total = length (events s),
      byType = fold (\<lambda>event. tally (ev_type event)) (events s) Map.empty,
      bySeverity = fold (\<lambda>event. tally (ev_severity event)) (events s) Map.empty\<rparr>"

text \<open>
  A run of the store: the operations a client can perform, and the events that the
  emissions of a run create, in order.
\<close>

datatype StoreOp =
    Emit int EventType Payload "EmitOptions option"
  | On string Listener
  | Clear

fun store_step :: "EventStore \<Rightarrow> StoreOp \<Rightarrow> EventStore" where
  "store_step s (Emit now ty d options) = fst (emit s now ty d options)"
| "store_step s (On name l) = on s name l"
| "store_step s Clear = clear s"

fun emitted :: "EventStore \<Rightarrow> StoreOp list \<Rightarrow> GuardianEvent list" where
  "emitted s [] = []"
| "emitted s (Emit now ty d options # ops) =
     new_event s now ty d options # emitted (store_step s (Emit now ty d options)) ops"
| "emitted s (op # ops) = emitted (store_step s op) ops"

fun is_Clear :: "StoreOp \<Rightarrow> bool" where
  "is_Clear Clear = True"
| "is_Clear _ = False"

definition never_cleared :: "StoreOp list \<Rightarrow> bool" where
  "never_cleared ops = (\<forall>op \<in> set ops. \<not> is_Clear op)"

text \<open>
  The number that an id carries after its \<open>evt_\<close> prefix; ids are compared by it.
\<close>

definition id_number :: "string \<Rightarrow> nat" where
  "id_number s = parseInt (drop 4 s)"

definition store_run :: "EventStore \<Rightarrow> StoreOp list \<Rightarrow> EventStore" where
  "store_run s ops = foldl store_step s ops"

text \<open>Sample inputs for the concrete evaluations below.\<close>

definition throws_never :: "GuardianEvent \<Rightarrow> bool" where
  "throws_never ev = False"

definition throws_always :: "GuardianEvent \<Rightarrow> bool" where
  "throws_always ev = True"

definition no_payload :: Payload where
  "no_payload = \<lparr>data_file = None, data_line = None, data_message = None\<rparr>"

definition two_subscribers :: EventStore where
  "two_subscribers =
     on (on new_EventStore ''event'' (Listener 1 throws_always)) ''event'' (Listener 2 throws_never)"


definition type_then_event_subscribers :: EventStore where
  "type_then_event_subscribers =
     on (on new_EventStore ''SYSTEM_INFO'' (Listener 1 throws_never))
        ''event'' (Listener 2 throws_never)"

section \<open>JavaScript \<open>Map\<close> objects\<close>

text \<open>
  A \<open>Map\<close> iterates in insertion order, and \<open>set\<close> on a key that is present replaces the
  value where it stands. Where the code iterates over a \<open>Map\<close> it is modelled as the list
  of its entries in that order, with pairwise distinct keys.
\<close>

type_synonym ('k, 'v) jsmap = "('k \<times> 'v) list"

fun jsmap_get :: "('k, 'v) jsmap \<Rightarrow> 'k \<Rightarrow> 'v option" where
  "jsmap_get [] key = None"
| "jsmap_get (entry # rest) key = (if fst entry = key then Some (snd entry) else jsmap_get rest key)"

fun jsmap_set :: "('k, 'v) jsmap \<Rightarrow> 'k \<Rightarrow> 'v \<Rightarrow> ('k, 'v) jsmap" where
  "jsmap_set [] key v = [(key, v)]"
| "jsmap_set (entry # rest) key v =
     (if fst entry = key then (key, v) # rest else entry # jsmap_set rest key v)"

definition jsmap_delete :: "('k, 'v) jsmap \<Rightarrow> 'k \<Rightarrow> ('k, 'v) jsmap" where
  "jsmap_delete entries key = filter (\<lambda>entry. fst entry \<noteq> key) entries"

section \<open>Health checker (src/utils/healthChecker.ts)\<close>

datatype HealthLevel = healthy_status | degraded_status | unhealthy_status

record MonitorHealth =
  healthy :: bool
  lastCheck :: int
  errors :: nat

record HealthChecker =
  startTime :: int
  eventCount :: nat
  monitorHealth :: "(string, MonitorHealth) jsmap"

definition new_HealthChecker :: "int \<Rightarrow> HealthChecker" where
  "new_HealthChecker now = \<lparr>startTime = now, eventCount = 0, monitorHealth = []\<rparr>"

definition recordEvent :: "HealthChecker \<Rightarrow> HealthChecker" where
  "recordEvent h = h\<lparr>eventCount := eventCount h + 1\<rparr>"

definition recordMonitorCheck :: "HealthChecker \<Rightarrow> int \<Rightarrow> string \<Rightarrow> bool \<Rightarrow> HealthChecker" where
  "recordMonitorCheck h now monitorName success =
     (let current = (case jsmap_get (monitorHealth h) monitorName of
                       Some c \<Rightarrow> c
                     | None \<Rightarrow> \<lparr>healthy = True, lastCheck = 0, errors = 0\<rparr>)
      in h\<lparr>monitorHealth :=
             jsmap_set (monitorHealth h) monitorName
               \<lparr>healthy = success, lastCheck = now,
                errors = (if success then 0 else errors current + 1)\<rparr>\<rparr>)"

text \<open>
  The first loop of \<open>getHealth\<close> over the entries of \<open>monitorHealth\<close>; \<open>status\<close> is the
  loop's variable, and the first branch is the one that ends with \<open>break\<close>.
\<close>

fun monitor_status :: "HealthLevel \<Rightarrow> (string, MonitorHealth) jsmap \<Rightarrow> HealthLevel" where
  "monitor_status status [] = status"
| "monitor_status status (entry # rest) =
     (if errors (snd entry) > 10 then unhealthy_status
      else if errors (snd entry) > 3 then monitor_status degraded_status rest
      else monitor_status status rest)"

record MonitorReport =
  rep_enabled :: bool
  rep_healthy :: bool
  rep_lastCheck :: int
  rep_errors :: nat

record HealthMetrics =
  eventsProcessed :: nat
  memoryUsage :: real

record HealthStatus =
  status :: HealthLevel
  uptime :: int
  timestamp :: int
  version :: string
  monitors :: "(string, MonitorReport) jsmap"
  metrics :: HealthMetrics

text \<open>
  \<open>getHealth\<close>. \<open>heapUsed\<close> is \<open>process.memoryUsage().heapUsed\<close> in bytes, \<open>now\<close> the first
  reading of \<open>Date.now()\<close> and \<open>later\<close> the second. The two memory tests are two separate
  \<open>if\<close> statements, each assigning \<open>status\<close>, after the loop over the monitors.
\<close>

definition getHealth :: "HealthChecker \<Rightarrow> nat \<Rightarrow> int \<Rightarrow> int \<Rightarrow> HealthStatus" where
  "getHealth h heapUsed now later =
     (let status0 = monitor_status healthy_status (monitorHealth h);
          memoryMB = real heapUsed / 1048576;
          status1 = (if memoryMB > 100 then degraded_status else status0);
          status2 = (if memoryMB > 200 then unhealthy_status else status1)
      in \<lparr>status = status2,
          uptime = now - startTime h,
          timestamp = later,
          version = ''1.0.0'',
          monitors = map (\<lambda>entry. (fst entry,
                            \<lparr>rep_enabled = True, rep_healthy = healthy (snd entry),
                             rep_lastCheck = lastCheck (snd entry),
                             rep_errors = errors (snd entry)\<rparr>)) (monitorHealth h),
          metrics = \<lparr>eventsProcessed = eventCount h, memoryUsage = memoryMB\<rparr>\<rparr>)"

definition isHealthy :: "HealthChecker \<Rightarrow> nat \<Rightarrow> int \<Rightarrow> int \<Rightarrow> bool" where
  "isHealthy h heapUsed now later = (status (getHealth h heapUsed now later) = healthy_status)"

text \<open>A checker whose monitor \<open>memory\<close> has failed eleven checks in a row.\<close>

definition eleven_failures :: HealthChecker where
  "eleven_failures =
     \<lparr>startTime = 0, eventCount = 0,
      monitorHealth = [(''memory'', \<lparr>healthy = False, lastCheck = 1000, errors = 11\<rparr>)]\<rparr>"

section \<open>Custom metrics (src/utils/customMetrics.ts)\<close>

text \<open>
  A JavaScript number: a finite value, one of the two infinities, or \<open>NaN\<close>. Finite values
  are real numbers, so the rounding of floating-point sums (and the overflow of a finite
  sum to an infinity) is not part of the model.
\<close>

datatype jsnumber = Finite real | Infinity | NegInfinity | NaN

text \<open>The operator \<open>+\<close> on numbers.\<close>

fun plus_number :: "jsnumber \<Rightarrow> jsnumber \<Rightarrow> jsnumber" where
  "plus_number (Finite a) (Finite b) = Finite (a + b)"
| "plus_number NaN y = NaN"
| "plus_number x NaN = NaN"
| "plus_number Infinity NegInfinity = NaN"
| "plus_number NegInfinity Infinity = NaN"
| "plus_number Infinity y = Infinity"
| "plus_number x Infinity = Infinity"
| "plus_number NegInfinity y = NegInfinity"
| "plus_number x NegInfinity = NegInfinity"

text \<open>The comparison \<open><=\<close> on numbers; it is false as soon as one side is \<open>NaN\<close>.\<close>

fun less_eq_number :: "jsnumber \<Rightarrow> jsnumber \<Rightarrow> bool" where
  "less_eq_number (Finite a) (Finite b) = (a \<le> b)"
| "less_eq_number NaN y = False"
| "less_eq_number x NaN = False"
| "less_eq_number NegInfinity y = True"
| "less_eq_number x Infinity = True"
| "less_eq_number x y = False"

text \<open>\<open>x || 0\<close> for a number \<open>x\<close>: the falsy numbers are \<open>0\<close> and \<open>NaN\<close>.\<close>

definition or_zero :: "jsnumber \<Rightarrow> jsnumber" where
  "or_zero x = (if x = NaN \<or> x = Finite 0 then Finite 0 else x)"

text \<open>
  A label set \<open>Record<string, string>\<close> is the list of its entries, with distinct keys, in
  the order \<open>Object.entries\<close> gives them. Gauge values and histogram observations are taken
  to be finite numbers.
\<close>

type_synonym Labels = "(string \<times> string) list"

record CustomMetrics =
  counters :: "string \<rightharpoonup> jsnumber"
  gauges :: "string \<rightharpoonup> real"
  histograms :: "string \<rightharpoonup> real list"
  labels :: "string \<rightharpoonup> Labels"

definition new_CustomMetrics :: CustomMetrics where
  "new_CustomMetrics =
     \<lparr>counters = Map.empty, gauges = Map.empty, histograms = Map.empty, labels = Map.empty\<rparr>"

fun join :: "string \<Rightarrow> string list \<Rightarrow> string" where
  "join sep [] = []"
| "join sep [piece] = piece"
| "join sep (piece # pieces) = piece @ sep @ join sep pieces"

text \<open>
  \<open>entries.sort(([a], [b]) => a.localeCompare(b))\<close>. The order of \<open>localeCompare\<close> depends
  on the locale of the process, so the comparison is a parameter \<open>localeCompare\<close> of the
  model: \<open>localeCompare a b\<close> is negative, zero or positive. The sort is stable: of two
  entries whose keys compare as equal, the one that came first stays first.
\<close>

fun place_entry ::
  "(string \<Rightarrow> string \<Rightarrow> int) \<Rightarrow> string \<times> string \<Rightarrow> Labels \<Rightarrow> Labels" where
  "place_entry localeCompare entry [] = [entry]"
| "place_entry localeCompare entry (other # others) =
     (if localeCompare (fst entry) (fst other) \<le> 0 then entry # other # others
      else other # place_entry localeCompare entry others)"

definition sort_entries :: "(string \<Rightarrow> string \<Rightarrow> int) \<Rightarrow> Labels \<Rightarrow> Labels" where
  "sort_entries localeCompare entries = foldr (place_entry localeCompare) entries []"

text \<open>\<open>getKey\<close>. \<open>CHR 0x22\<close> is the double quote.\<close>

definition getKey :: "(string \<Rightarrow> string \<Rightarrow> int) \<Rightarrow> string \<Rightarrow> Labels option \<Rightarrow> string" where
  "getKey localeCompare name lbls =
     (case lbls of
        None \<Rightarrow> name
      | Some entries \<Rightarrow>
          if entries = [] then name
          else name @ ''{''
               @ join '','' (map (\<lambda>entry. fst entry @ ''='' @ [CHR 0x22] @ snd entry @ [CHR 0x22])
                                (sort_entries localeCompare entries))
               @ ''}'')"

definition remember_labels :: "CustomMetrics \<Rightarrow> string \<Rightarrow> Labels option \<Rightarrow> CustomMetrics" where
  "remember_labels m key lbls =
     (case lbls of None \<Rightarrow> m | Some entries \<Rightarrow> m\<lparr>labels := (labels m)(key \<mapsto> entries)\<rparr>)"

text \<open>
  \<open>incrementCounter\<close>; an absent \<open>value\<close> is the default \<open>1\<close>. The stored value is read with
  \<open>|| 0\<close>, and nothing tests \<open>value\<close>: neither its sign nor whether it is \<open>NaN\<close>.
\<close>

definition incrementCounter ::
  "(string \<Rightarrow> string \<Rightarrow> int) \<Rightarrow> CustomMetrics \<Rightarrow> string \<Rightarrow> jsnumber option \<Rightarrow> Labels option
     \<Rightarrow> CustomMetrics" where
  "incrementCounter localeCompare m name val lbls =
     (let key = getKey localeCompare name lbls;
          current = (case counters m key of Some c \<Rightarrow> or_zero c | None \<Rightarrow> Finite 0);
          amount = (case val of Some v \<Rightarrow> v | None \<Rightarrow> Finite 1)
      in remember_labels (m\<lparr>counters := (counters m)(key \<mapsto> plus_number current amount)\<rparr>)
           key lbls)"

definition setGauge ::
  "(string \<Rightarrow> string \<Rightarrow> int) \<Rightarrow> CustomMetrics \<Rightarrow> string \<Rightarrow> real \<Rightarrow> Labels option
     \<Rightarrow> CustomMetrics" where
  "setGauge localeCompare m name v lbls =
     (let key = getKey localeCompare name lbls
      in remember_labels (m\<lparr>gauges := (gauges m)(key \<mapsto> v)\<rparr>) key lbls)"

definition recordHistogram ::
  "(string \<Rightarrow> string \<Rightarrow> int) \<Rightarrow> CustomMetrics \<Rightarrow> string \<Rightarrow> real \<Rightarrow> Labels option
     \<Rightarrow> CustomMetrics" where
  "recordHistogram localeCompare m name v lbls =
     (let key = getKey localeCompare name lbls;
          pushed = (case histograms m key of Some vs \<Rightarrow> vs | None \<Rightarrow> []) @ [v];
          kept = (if length pushed > 1000 then tl pushed else pushed)
      in remember_labels (m\<lparr>histograms := (histograms m)(key \<mapsto> kept)\<rparr>) key lbls)"

text \<open>\<open>getCounter\<close>: \<open>this.counters.get(key) || 0\<close>, so a stored \<open>NaN\<close> reads as \<open>0\<close>.\<close>

definition getCounter ::
  "(string \<Rightarrow> string \<Rightarrow> int) \<Rightarrow> CustomMetrics \<Rightarrow> string \<Rightarrow> Labels option \<Rightarrow> jsnumber" where
  "getCounter localeCompare m name lbls =
     (case counters m (getKey localeCompare name lbls) of
        Some c \<Rightarrow> or_zero c
      | None \<Rightarrow> Finite 0)"

definition getGauge ::
  "(string \<Rightarrow> string \<Rightarrow> int) \<Rightarrow> CustomMetrics \<Rightarrow> string \<Rightarrow> Labels option \<Rightarrow> real" where
  "getGauge localeCompare m name lbls =
     (case gauges m (getKey localeCompare name lbls) of Some g \<Rightarrow> g | None \<Rightarrow> 0)"

record HistogramStats =
  h_count :: nat
  h_sum :: real
  h_avg :: real
  h_min :: real
  h_max :: real
  p50 :: real
  p95 :: real
  p99 :: real

text \<open>
  The index \<open>Math.floor(length * q)\<close>, with the exact product. For the factors that
  occur (0.2, 0.5, 0.95 and 0.99) and every length up to 200000, the double-precision
  product has the same floor.
\<close>

definition floor_index :: "nat \<Rightarrow> real \<Rightarrow> nat" where
  "floor_index n q = nat \<lfloor>real n * q\<rfloor>"

text \<open>
  \<open>getHistogramStats\<close>; \<open>None\<close> is \<open>null\<close>. Every index read is below the length, the
  list being non-empty.
\<close>

definition getHistogramStats ::
  "(string \<Rightarrow> string \<Rightarrow> int) \<Rightarrow> CustomMetrics \<Rightarrow> string \<Rightarrow> Labels option
     \<Rightarrow> HistogramStats option" where
  "getHistogramStats localeCompare m name lbls =
     (case histograms m (getKey localeCompare name lbls) of
        None \<Rightarrow> None
      | Some vs \<Rightarrow>
          if vs = [] then None
          else (let sorted_vs = sort vs;
                    total_sum = foldl (+) 0 sorted_vs
                in Some \<lparr>h_count = length sorted_vs,
                         h_sum = total_sum,
                         h_avg = total_sum / real (length sorted_vs),
                         h_min = sorted_vs ! 0,
                         h_max = sorted_vs ! (length sorted_vs - 1),
                         p50 = sorted_vs ! floor_index (length sorted_vs) 0.5,
                         p95 = sorted_vs ! floor_index (length sorted_vs) 0.95,
                         p99 = sorted_vs ! floor_index (length sorted_vs) 0.99\<rparr>))"

definition clear_metrics :: "CustomMetrics \<Rightarrow> CustomMetrics" where
  "clear_metrics m = new_CustomMetrics"

text \<open>The operations that write the registry, and a run of them.\<close>

datatype MetricOp =
    IncrementCounter string "jsnumber option" "Labels option"
  | SetGauge string real "Labels option"
  | RecordHistogram string real "Labels option"
  | ClearMetrics

fun metric_step :: "(string \<Rightarrow> string \<Rightarrow> int) \<Rightarrow> CustomMetrics \<Rightarrow> MetricOp \<Rightarrow> CustomMetrics" where
  "metric_step localeCompare m (IncrementCounter name val lbls) =
     incrementCounter localeCompare m name val lbls"
| "metric_step localeCompare m (SetGauge name v lbls) = setGauge localeCompare m name v lbls"
| "metric_step localeCompare m (RecordHistogram name v lbls) =
     recordHistogram localeCompare m name v lbls"
| "metric_step localeCompare m ClearMetrics = clear_metrics m"

definition metric_run ::
  "(string \<Rightarrow> string \<Rightarrow> int) \<Rightarrow> CustomMetrics \<Rightarrow> MetricOp list \<Rightarrow> CustomMetrics" where
  "metric_run localeCompare m ops = foldl (metric_step localeCompare) m ops"

text \<open>
  An operation that cannot lower a counter: not \<open>clear\<close>, and not an increment by an
  amount for which \<open>0 <= amount\<close> is false, that is, by a negative amount or by \<open>NaN\<close>.
\<close>

fun raises_only :: "MetricOp \<Rightarrow> bool" where
  "raises_only (IncrementCounter name val lbls) =
     (case val of Some v \<Rightarrow> less_eq_number (Finite 0) v | None \<Rightarrow> True)"
| "raises_only ClearMetrics = False"
| "raises_only _ = True"

definition all_raise_only :: "MetricOp list \<Rightarrow> bool" where
  "all_raise_only ops = list_all raises_only ops"

text \<open>The observations \<open>1, 2, \<dots>, 100\<close> recorded in this order under the name \<open>test\<close>.\<close>

definition one_to_hundred :: "real list" where
  "one_to_hundred = map real [1 ..< 101]"

definition record_all ::
  "(string \<Rightarrow> string \<Rightarrow> int) \<Rightarrow> CustomMetrics \<Rightarrow> string \<Rightarrow> real list \<Rightarrow> CustomMetrics" where
  "record_all localeCompare m name vs =
     foldl (\<lambda>acc v. recordHistogram localeCompare acc name v None) m vs"

text \<open>
  Sample inputs: a comparison to stand for \<open>localeCompare\<close> where a concrete one is
  needed (the order of the character codes), and a run of three operations.
\<close>

definition code_order :: "string \<Rightarrow> string \<Rightarrow> int" where
  "code_order a b = (if a = b then 0 else if a < b then - 1 else 1)"

definition sample_metric_ops :: "MetricOp list" where
  "sample_metric_ops =
     [IncrementCounter ''requests'' None None, SetGauge ''connections'' (-3) None,
      IncrementCounter ''requests'' (Some (Finite 2.5)) None]"

section \<open>Alert router (class \<open>AlertRouter\<close>, second module of src/utils/healthChecker.ts)\<close>

record RateLimit =
  maxPerMinute :: nat
  maxPerHour :: nat

text \<open>
  What a call \<open>route.handler(event)\<close> does, seen from \<open>route\<close>: it returns (a value, or a
  promise that is fulfilled later), it returns a promise that is rejected later, or it
  throws before returning. The number is the time in milliseconds that the synchronous
  part of the call takes.
\<close>

datatype HandlerResult = Fulfilled nat | Rejected nat | Thrown nat

text \<open>
  A route. The handler is given the event and the time at which it is called.
  \<open>route_enabled\<close> is the optional field \<open>enabled\<close>.
\<close>

record AlertRoute =
  route_name :: string
  route_filter :: "(GuardianEvent \<Rightarrow> bool) option"
  route_handler :: "GuardianEvent \<Rightarrow> int \<Rightarrow> HandlerResult"
  route_enabled :: "bool option"
  route_rateLimit :: "RateLimit option"

record RateWindow =
  perMinute :: "int list"
  perHour :: "int list"

record AlertRouter =
  routes :: "AlertRoute list"
  alertCounts :: "string \<rightharpoonup> RateWindow"
  deduplicationCache :: "string \<rightharpoonup> int"

definition new_AlertRouter :: AlertRouter where
  "new_AlertRouter = \<lparr>routes = [], alertCounts = Map.empty, deduplicationCache = Map.empty\<rparr>"

definition addRoute :: "AlertRouter \<Rightarrow> AlertRoute \<Rightarrow> AlertRouter" where
  "addRoute r rt =
     r\<lparr>routes := routes r @ [rt\<lparr>route_enabled := Some (route_enabled rt \<noteq> Some False)\<rparr>]\<rparr>"

definition removeRoute :: "AlertRouter \<Rightarrow> string \<Rightarrow> AlertRouter" where
  "removeRoute r name = r\<lparr>routes := filter (\<lambda>rt. route_name rt \<noteq> name) (routes r)\<rparr>"

text \<open>
  \<open>getEventKey\<close>: the type, then \<open>event.data.file || 'unknown'\<close>, then
  \<open>event.data.line || 0\<close>, all read from the payload \<open>data\<close>.
\<close>

definition getEventKey :: "GuardianEvent \<Rightarrow> string" where
  "getEventKey event =
     type_name (ev_type event) @ '':''
     @ (case data_file (ev_data event) of
          None \<Rightarrow> ''unknown''
        | Some f \<Rightarrow> if f = [] then ''unknown'' else f)
     @ '':''
     @ dec (case data_line (ev_data event) of None \<Rightarrow> 0 | Some n \<Rightarrow> n)"

text \<open>
  \<open>checkRateLimit\<close> at time \<open>now\<close>. The two filtered lists are assigned to the fields of
  \<open>counts\<close>; when \<open>counts\<close> is the object held in \<open>alertCounts\<close>, this changes the table even
  if the call then returns \<open>false\<close>.
\<close>

definition checkRateLimit ::
  "AlertRouter \<Rightarrow> int \<Rightarrow> string \<Rightarrow> RateLimit \<Rightarrow> bool \<times> AlertRouter" where
  "checkRateLimit r now routeName limit =
     (let counts = (case alertCounts r routeName of
                      Some c \<Rightarrow> c
                    | None \<Rightarrow> \<lparr>perMinute = [], perHour = []\<rparr>);
          cleaned = \<lparr>perMinute = filter (\<lambda>t. now - t < 60000) (perMinute counts),
                     perHour = filter (\<lambda>t. now - t < 3600000) (perHour counts)\<rparr>;
          refused = (case alertCounts r routeName of
                       Some c \<Rightarrow> r\<lparr>alertCounts := (alertCounts r)(routeName \<mapsto> cleaned)\<rparr>
                     | None \<Rightarrow> r)
      in if length (perMinute cleaned) \<ge> maxPerMinute limit then (False, refused)
         else if length (perHour cleaned) \<ge> maxPerHour limit then (False, refused)
         else (True, r\<lparr>alertCounts := (alertCounts r)(routeName \<mapsto>
                           \<lparr>perMinute = perMinute cleaned @ [now],
                            perHour = perHour cleaned @ [now]\<rparr>)\<rparr>))"

text \<open>
  \<open>route\<close> is an \<open>async\<close> function: it runs until \<open>await route.handler(event)\<close>, stops
  there, and goes on, in a later turn of the event loop, once the handler's result is
  known. Only then does it write the dedup cache. Between the two, other calls of \<open>route\<close>
  can begin. A call that waits at its \<open>await\<close> is described by the event and its key, the
  time at which the call began, the position of the route whose handler it awaits, the
  routes still to visit after that one, the time at which the handler was called, and
  whether the awaited result is a fulfilment.
\<close>

record Call =
  c_event :: GuardianEvent
  c_key :: string
  c_began :: int
  c_route :: nat
  c_rest :: "AlertRoute list"
  c_called :: int
  c_fulfils :: bool

text \<open>
  A handler call whose outcome \<open>route\<close> has dealt with: the position of the route, the
  key of the event, the time at which the call of \<open>route\<close> began, the time at which the
  handler was called, the time at which \<open>route\<close> went on after it (and, when the handler
  succeeded, wrote that time into the cache), and whether the handler succeeded.
\<close>

record Dispatch =
  d_route :: nat
  d_key :: string
  d_began :: int
  d_time :: int
  d_recorded :: int
  d_ok :: bool

text \<open>
  The router together with what surrounds it: the current value of \<open>Date.now()\<close>, the
  calls of \<open>route\<close> that wait at their \<open>await\<close>, and the log of the handler calls dealt
  with so far.
\<close>

record RouterWorld =
  router :: AlertRouter
  clock :: int
  suspended :: "Call list"
  dispatched :: "Dispatch list"

text \<open>
  The \<open>for\<close> loop of \<open>route\<close> from position \<open>i\<close> on, up to the next \<open>await\<close> or the end of
  the routes. A handler that throws before returning is caught at once and the loop
  goes on; otherwise the call is suspended. The clock advances while the synchronous
  part of a handler runs; the other synchronous code of \<open>route\<close> is taken to be
  instantaneous.
\<close>

fun route_from ::
  "GuardianEvent \<Rightarrow> string \<Rightarrow> int \<Rightarrow> nat \<Rightarrow> AlertRoute list \<Rightarrow> RouterWorld \<Rightarrow> RouterWorld" where
  "route_from event eventKey began i [] w = w"
| "route_from event eventKey began i (rt # rest) w =
     (if route_enabled rt \<noteq> Some True then route_from event eventKey began (i + 1) rest w
      else if (case route_filter rt of Some f \<Rightarrow> \<not> f event | None \<Rightarrow> False)
        then route_from event eventKey began (i + 1) rest w
      else
        (case (case route_rateLimit rt of
                 Some limit \<Rightarrow> checkRateLimit (router w) (clock w) (route_name rt) limit
               | None \<Rightarrow> (True, router w)) of
           (False, r1) \<Rightarrow> route_from event eventKey began (i + 1) rest (w\<lparr>router := r1\<rparr>)
         | (True, r1) \<Rightarrow>
             (case route_handler rt event (clock w) of
                Thrown ms \<Rightarrow>
                  route_from event eventKey began (i + 1) rest
                    (w\<lparr>router := r1, clock := clock w + int ms,
                       dispatched := dispatched w
                         @ [\<lparr>d_route = i, d_key = eventKey, d_began = began, d_time = clock w,
                             d_recorded = clock w + int ms, d_ok = False\<rparr>]\<rparr>)
              | Fulfilled ms \<Rightarrow>
                  w\<lparr>router := r1, clock := clock w + int ms,
                    suspended := suspended w
                      @ [\<lparr>c_event = event, c_key = eventKey, c_began = began, c_route = i,
                          c_rest = rest, c_called = clock w, c_fulfils = True\<rparr>]\<rparr>
              | Rejected ms \<Rightarrow>
                  w\<lparr>router := r1, clock := clock w + int ms,
                    suspended := suspended w
                      @ [\<lparr>c_event = event, c_key = eventKey, c_began = began, c_route = i,
                          c_rest = rest, c_called = clock w, c_fulfils = False\<rparr>]\<rparr>)))"

text \<open>
  The call \<open>route(event)\<close>, up to its first \<open>await\<close>. A cached time \<open>0\<close> is falsy, so the
  test \<open>lastSent && \<dots>\<close> lets the event through.
\<close>

definition route :: "RouterWorld \<Rightarrow> GuardianEvent \<Rightarrow> RouterWorld" where
  "route w event =
     (let eventKey = getEventKey event
      in if (case deduplicationCache (router w) eventKey of
               Some lastSent \<Rightarrow> lastSent \<noteq> 0 \<and> clock w - lastSent < 300000
             | None \<Rightarrow> False)
         then w
         else route_from event eventKey (clock w) 0 (routes (router w)) w)"

text \<open>
  The suspended call at position \<open>n\<close> goes on: after a fulfilment it writes the current
  time into the cache under its key, after a rejection it logs the error; then the loop
  continues with the next route.
\<close>

definition resume :: "RouterWorld \<Rightarrow> nat \<Rightarrow> RouterWorld" where
  "resume w n =
     (if length (suspended w) \<le> n then w
      else
        (let c = suspended w ! n;
             others = take n (suspended w) @ drop (Suc n) (suspended w);
             entry = \<lparr>d_route = c_route c, d_key = c_key c, d_began = c_began c,
                      d_time = c_called c, d_recorded = clock w, d_ok = c_fulfils c\<rparr>;
             r1 = (if c_fulfils c
                   then (router w)\<lparr>deduplicationCache :=
                                      (deduplicationCache (router w))(c_key c \<mapsto> clock w)\<rparr>
                   else router w)
         in route_from (c_event c) (c_key c) (c_began c) (c_route c + 1) (c_rest c)
              (w\<lparr>router := r1, suspended := others, dispatched := dispatched w @ [entry]\<rparr>)))"

text \<open>
  A run: calls of \<open>route\<close> begin, suspended calls go on in any order, and time passes.
  The caller that awaits every call of \<open>route\<close> before making the next one produces the
  runs in which every \<open>Route\<close> is followed by \<open>Resume 0\<close> until no call is suspended. The
  route list is not changed during a run.
\<close>

datatype RouterOp = Route GuardianEvent | Resume nat | Elapse nat

fun router_step :: "RouterWorld \<Rightarrow> RouterOp \<Rightarrow> RouterWorld" where
  "router_step w (Route event) = route w event"
| "router_step w (Resume n) = resume w n"
| "router_step w (Elapse ms) = w\<lparr>clock := clock w + int ms\<rparr>"

definition router_run :: "RouterWorld \<Rightarrow> RouterOp list \<Rightarrow> RouterWorld" where
  "router_run w ops = foldl router_step w ops"

text \<open>
  A world at its start: nothing was sent yet, no call of \<open>route\<close> is under way, and the
  clock shows a positive time.
\<close>

definition fresh_world :: "RouterWorld \<Rightarrow> bool" where
  "fresh_world w =
     (deduplicationCache (router w) = Map.empty \<and> dispatched w = [] \<and> suspended w = []
      \<and> 0 < clock w)"

text \<open>
  A call of \<open>route\<close> for the key \<open>k\<close> that began at the time \<open>began\<close> respects the log: every
  successful dispatch for \<open>k\<close> that was recorded before the call began was recorded at
  least five minutes before.
\<close>

definition call_clear :: "int \<Rightarrow> string \<Rightarrow> Dispatch list \<Rightarrow> bool" where
  "call_clear began k sent =
     (\<forall>d \<in> set sent. d_ok d \<and> d_key d = k \<and> d_recorded d < began
        \<longrightarrow> d_recorded d + 300000 \<le> began)"



text \<open>
  The cache holds exactly the keys of the successful dispatches of the log, each with
  the time of the latest recording.
\<close>

definition cache_mirrors_log :: "RouterWorld \<Rightarrow> bool" where
  "cache_mirrors_log w =
     (dom (deduplicationCache (router w)) = d_key ` {d \<in> set (dispatched w). d_ok d}
      \<and> (\<forall>d \<in> set (dispatched w). d_ok d \<longrightarrow>
            (\<exists>t. deduplicationCache (router w) (d_key d) = Some t \<and> d_recorded d \<le> t
                 \<and> (\<exists>latest \<in> set (dispatched w).
                       d_ok latest \<and> d_key latest = d_key d \<and> d_recorded latest = t))))"

text \<open>Sample inputs: a router with one route whose handler returns at once.\<close>

definition instant_handler :: "GuardianEvent \<Rightarrow> int \<Rightarrow> HandlerResult" where
  "instant_handler event start = Fulfilled 0"

definition one_route_world :: RouterWorld where
  "one_route_world =
     \<lparr>router = addRoute new_AlertRouter
                 \<lparr>route_name = ''log'', route_filter = None, route_handler = instant_handler,
                  route_enabled = None, route_rateLimit = None\<rparr>,
      clock = 1000, suspended = [], dispatched = []\<rparr>"

definition sample_event :: "string \<Rightarrow> GuardianEvent" where
  "sample_event payload_file =
     \<lparr>ev_id = ''evt_1'', ev_type = MEMORY_LEAK, ev_timestamp = 1000, ev_severity = CRITICAL,
      ev_source = ''unknown'',
      ev_data = \<lparr>data_file = Some payload_file, data_line = Some 7, data_message = None\<rparr>,
      ev_stack = None, ev_file = Some ''/app/server.js'', ev_line = Some 42,
      ev_suggestion = None\<rparr>"

text \<open>
  The statements on which the proofs about runs of the router rest. The first describes
  one stretch of the loop for the key \<open>k\<close> of a call that began at \<open>began\<close>: it leaves the
  cache alone, logs only failed handler calls, and suspends at most at one \<open>await\<close>. The
  others make up the invariant of a run.
\<close>

definition stretch_effect :: "string \<Rightarrow> int \<Rightarrow> RouterWorld \<Rightarrow> RouterWorld \<Rightarrow> bool" where
  "stretch_effect k began w w' =
     (deduplicationCache (router w') = deduplicationCache (router w)
      \<and> clock w \<le> clock w'
      \<and> (\<exists>new. dispatched w' = dispatched w @ new
            \<and> (\<forall>d \<in> set new. \<not> d_ok d \<and> d_key d = k \<and> d_began d = began
                  \<and> clock w \<le> d_time d \<and> d_time d \<le> d_recorded d
                  \<and> d_recorded d \<le> clock w'))
      \<and> (\<exists>cs. suspended w' = suspended w @ cs
            \<and> (\<forall>c \<in> set cs. c_key c = k \<and> c_began c = began
                  \<and> clock w \<le> c_called c \<and> c_called c \<le> clock w')))"

definition cache_inv :: "RouterWorld \<Rightarrow> bool" where
  "cache_inv w =
     (0 < clock w
      \<and> (\<forall>k t. deduplicationCache (router w) k = Some t \<longrightarrow>
            0 < t \<and> t \<le> clock w
            \<and> (\<exists>d \<in> set (dispatched w). d_ok d \<and> d_key d = k \<and> d_recorded d = t)))"

definition log_inv :: "RouterWorld \<Rightarrow> bool" where
  "log_inv w =
     (\<forall>d \<in> set (dispatched w).
        d_began d \<le> d_time d \<and> d_time d \<le> d_recorded d \<and> d_recorded d \<le> clock w
        \<and> (d_ok d \<longrightarrow> (\<exists>t. deduplicationCache (router w) (d_key d) = Some t
                              \<and> d_recorded d \<le> t)))"

definition calls_inv :: "RouterWorld \<Rightarrow> bool" where
  "calls_inv w =
     (\<forall>c \<in> set (suspended w).
        c_began c \<le> c_called c \<and> c_called c \<le> clock w
        \<and> call_clear (c_began c) (c_key c) (dispatched w))"

definition pairs_inv :: "RouterWorld \<Rightarrow> bool" where
  "pairs_inv w = (\<forall>d \<in> set (dispatched w). call_clear (d_began d) (d_key d) (dispatched w))"

definition world_inv :: "RouterWorld \<Rightarrow> bool" where
  "world_inv w = (cache_inv w \<and> log_inv w \<and> calls_inv w \<and> pairs_inv w)"

section \<open>Stack parsing and self-filtering (promiseTracker.ts, unawaitedPromiseDetector.ts)\<close>

definition is_digit :: "char \<Rightarrow> bool" where
  "is_digit c = (c \<in> set ''0123456789'')"

text \<open>
  The regular expression \<open>/\(([^)]+):(\d+):\d+\)/\<close> tried right after an opening
  parenthesis. Nothing it matches after the opening parenthesis is a closing one, except
  its last character; so the match ends at the first closing parenthesis, and the text
  in between is split at its last two colons into the file (group 1, not empty), the line
  (group 2, digits) and the column (digits).
\<close>

definition match_after_paren :: "string \<Rightarrow> (string \<times> string) option" where
  "match_after_paren rest =
     (let inner = takeWhile (\<lambda>c. c \<noteq> CHR '')'') rest
      in if length inner = length rest then None
         else (let parts = split_on (CHR '':'') inner; n = length parts
               in if n < 3 then None
                  else (let file = join '':'' (take (n - 2) parts);
                            ln = parts ! (n - 2);
                            col = parts ! (n - 1)
                        in if file \<noteq> [] \<and> ln \<noteq> [] \<and> col \<noteq> []
                              \<and> list_all is_digit ln \<and> list_all is_digit col
                           then Some (file, ln) else None)))"

text \<open>\<open>line.match(\<dots>)\<close>: the leftmost opening parenthesis at which the expression matches.\<close>

fun match_frame :: "string \<Rightarrow> (string \<times> string) option" where
  "match_frame [] = None"
| "match_frame (c # cs) =
     (if c = CHR ''(''
      then (case match_after_paren cs of Some m \<Rightarrow> Some m | None \<Rightarrow> match_frame cs)
      else match_frame cs)"

text \<open>
  The loop of \<open>parseStack\<close>: the first line with a match whose file contains none of the
  excluded texts; the result is the file and \<open>parseInt\<close> of the line, or nothing.
\<close>

fun first_frame :: "string list \<Rightarrow> string list \<Rightarrow> (string \<times> nat) option" where
  "first_frame excluded [] = None"
| "first_frame excluded (l # ls) =
     (case match_frame l of
        None \<Rightarrow> first_frame excluded ls
      | Some m \<Rightarrow>
          if list_ex (str_includes (fst m)) excluded then first_frame excluded ls
          else Some (fst m, parseInt (snd m)))"

text \<open>\<open>PromiseTracker.parseStack\<close> and \<open>UnawaitedPromiseDetector.parseStack\<close>.\<close>

definition tracker_parseStack :: "string \<Rightarrow> (string \<times> nat) option" where
  "tracker_parseStack stack =
     first_frame [''node_modules'', ''node:internal''] (split_on (CHR 0x0A) stack)"

definition detector_parseStack :: "string \<Rightarrow> (string \<times> nat) option" where
  "detector_parseStack stack =
     first_frame [''node_modules'', ''node:internal'', ''unawaitedPromiseDetector'']
       (split_on (CHR 0x0A) stack)"

text \<open>
  The test that both classes apply to the parsed file: \<open>file && (file.includes(\<dots>) || \<dots>)\<close>.
\<close>

definition isGuardianInternal :: "string option \<Rightarrow> bool" where
  "isGuardianInternal file =
     (case file of
        None \<Rightarrow> False
      | Some f \<Rightarrow>
          f \<noteq> [] \<and>
          (str_includes f ''/node-guardian/'' \<or>
           str_includes f ''/dist/core/'' \<or>
           str_includes f ''/dist/collector/'' \<or>
           str_includes f ''/dist/dashboard/'' \<or>
           str_includes f ''/dist/instrumentation/'' \<or>
           str_includes f ''promiseTracker'' \<or>
           str_includes f ''eventLoopMonitor'' \<or>
           str_includes f ''memoryMonitor'' \<or>
           str_includes f ''unawaitedPromiseDetector'' \<or>
           str_includes f ''eventStore''))"

section \<open>Promise tracker (src/core/promiseTracker.ts)\<close>

datatype PromiseStatus = Pending | Resolved | Rejected

record TrackedPromise =
  asyncId :: nat
  p_type :: string
  triggerAsyncId :: nat
  createdAt :: int
  p_stack :: string
  p_status :: PromiseStatus
  p_file :: "string option"
  p_line :: "nat option"

record PromiseConfig =
  enabled :: bool
  deadlockThreshold :: int
  checkInterval :: int
  maxTrackedPromises :: nat

record PromiseTracker =
  promises :: "(nat, TrackedPromise) jsmap"
  config :: PromiseConfig
  deadlockCount :: nat

definition default_PromiseConfig :: PromiseConfig where
  "default_PromiseConfig =
     \<lparr>enabled = True, deadlockThreshold = 30000, checkInterval = 5000,
      maxTrackedPromises = 10000\<rparr>"

definition new_PromiseTracker :: "PromiseConfig \<Rightarrow> PromiseTracker" where
  "new_PromiseTracker cfg = \<lparr>promises = [], config = cfg, deadlockCount = 0\<rparr>"

text \<open>
  \<open>cleanupOldPromises\<close>: the entries that are not pending, oldest first (the sort is
  stable), and of these the first \<open>Math.floor(length * 0.2)\<close> are deleted.
\<close>

definition settled_oldest_first :: "PromiseTracker \<Rightarrow> (nat \<times> TrackedPromise) list" where
  "settled_oldest_first t =
     sort_key (\<lambda>entry. createdAt (snd entry))
       (filter (\<lambda>entry. p_status (snd entry) \<noteq> Pending) (promises t))"

definition cleanupOldPromises :: "PromiseTracker \<Rightarrow> PromiseTracker" where
  "cleanupOldPromises t =
     (let sorted_entries = settled_oldest_first t;
          toRemove = floor_index (length sorted_entries) 0.2
      in t\<lparr>promises := foldl jsmap_delete (promises t)
                           (map fst (take toRemove sorted_entries))\<rparr>)"

text \<open>
  \<open>onInit\<close>; \<open>stack\<close> is the text of \<open>new Error().stack\<close> and \<open>now\<close> the value of
  \<open>Date.now()\<close>. The new entry is stored whether or not the cleanup removed anything.
\<close>

definition onInit ::
  "PromiseTracker \<Rightarrow> nat \<Rightarrow> string \<Rightarrow> nat \<Rightarrow> string \<Rightarrow> int \<Rightarrow> PromiseTracker" where
  "onInit t aid ty trigger stack now =
     (if ty \<noteq> ''PROMISE'' then t
      else (let parsed = tracker_parseStack stack;
                file = map_option fst parsed;
                line = map_option snd parsed
            in if isGuardianInternal file then t
               else (let t1 = (if length (promises t) \<ge> maxTrackedPromises (config t)
                               then cleanupOldPromises t else t)
                     in t1\<lparr>promises := jsmap_set (promises t1) aid
                              \<lparr>asyncId = aid, p_type = ty, triggerAsyncId = trigger,
                               createdAt = now, p_stack = stack, p_status = Pending,
                               p_file = file, p_line = line\<rparr>\<rparr>)))"

text \<open>
  \<open>onDestroy\<close> marks a pending entry as resolved; the deletion it schedules for a minute
  later is \<open>expire\<close>.
\<close>

definition onDestroy :: "PromiseTracker \<Rightarrow> nat \<Rightarrow> PromiseTracker" where
  "onDestroy t aid =
     (case jsmap_get (promises t) aid of
        None \<Rightarrow> t
      | Some p \<Rightarrow>
          if p_status p = Pending
          then t\<lparr>promises := jsmap_set (promises t) aid (p\<lparr>p_status := Resolved\<rparr>)\<rparr>
          else t)"

definition expire :: "PromiseTracker \<Rightarrow> nat \<Rightarrow> PromiseTracker" where
  "expire t aid = t\<lparr>promises := jsmap_delete (promises t) aid\<rparr>"

definition getPendingPromises :: "PromiseTracker \<Rightarrow> TrackedPromise list" where
  "getPendingPromises t =
     sort_key createdAt (filter (\<lambda>p. p_status p = Pending) (map snd (promises t)))"

text \<open>
  What \<open>checkForDeadlocks\<close> does to the tracker: every pending entry older than the
  threshold is counted and marked as rejected. The event it emits for each of them, with
  the related promises and the circular-wait flag, is not part of this model.
\<close>

fun mark_deadlocks :: "int \<Rightarrow> TrackedPromise list \<Rightarrow> PromiseTracker \<Rightarrow> PromiseTracker" where
  "mark_deadlocks now [] t = t"
| "mark_deadlocks now (p # ps) t =
     (if now - createdAt p > deadlockThreshold (config t)
      then (case jsmap_get (promises t) (asyncId p) of
              None \<Rightarrow> mark_deadlocks now ps (t\<lparr>deadlockCount := deadlockCount t + 1\<rparr>)
            | Some q \<Rightarrow>
                if p_status q \<noteq> Pending then mark_deadlocks now ps t
                else mark_deadlocks now ps
                       (t\<lparr>deadlockCount := deadlockCount t + 1,
                          promises := jsmap_set (promises t) (asyncId p)
                                        (q\<lparr>p_status := Rejected\<rparr>)\<rparr>))
      else mark_deadlocks now ps t)"

definition checkForDeadlocks :: "PromiseTracker \<Rightarrow> int \<Rightarrow> PromiseTracker" where
  "checkForDeadlocks t now = mark_deadlocks now (getPendingPromises t) t"

definition tracker_stop :: "PromiseTracker \<Rightarrow> PromiseTracker" where
  "tracker_stop t = t\<lparr>promises := []\<rparr>"

text \<open>
  A run of the tracker. \<open>Expire\<close> may come at any time, so the runs of the model include
  every run of the code.
\<close>

datatype TrackerOp =
    Init nat string nat string int
  | Destroy nat
  | Expire nat
  | Check int
  | TrackerStop

fun tracker_step :: "PromiseTracker \<Rightarrow> TrackerOp \<Rightarrow> PromiseTracker" where
  "tracker_step t (Init aid ty trigger stack now) = onInit t aid ty trigger stack now"
| "tracker_step t (Destroy aid) = onDestroy t aid"
| "tracker_step t (Expire aid) = expire t aid"
| "tracker_step t (Check now) = checkForDeadlocks t now"
| "tracker_step t TrackerStop = tracker_stop t"

definition tracker_run :: "PromiseTracker \<Rightarrow> TrackerOp list \<Rightarrow> PromiseTracker" where
  "tracker_run t ops = foldl tracker_step t ops"

section \<open>Unawaited promise detector (src/instrumentation/unawaitedPromiseDetector.ts)\<close>

record TrackedPromiseCreation =
  tp_id :: nat
  tp_stack :: string
  tp_createdAt :: int
  tp_file :: "string option"
  tp_line :: "nat option"
  isAwaited :: bool

record UnawaitedPromiseDetector =
  warningThreshold :: int
  promiseCounter :: nat
  trackedPromises :: "(nat, TrackedPromiseCreation) jsmap"

definition new_Detector :: "int \<Rightarrow> UnawaitedPromiseDetector" where
  "new_Detector threshold =
     \<lparr>warningThreshold = threshold, promiseCounter = 0, trackedPromises = []\<rparr>"

text \<open>
  The body shared by the wrappers put on \<open>then\<close>, \<open>catch\<close> and \<open>finally\<close> of a tracked
  promise.
\<close>

definition mark_awaited :: "UnawaitedPromiseDetector \<Rightarrow> nat \<Rightarrow> UnawaitedPromiseDetector" where
  "mark_awaited d pid =
     (case jsmap_get (trackedPromises d) pid of
        None \<Rightarrow> d
      | Some tracked \<Rightarrow>
          d\<lparr>trackedPromises := jsmap_set (trackedPromises d) pid (tracked\<lparr>isAwaited := True\<rparr>)\<rparr>)"

text \<open>
  The constructor \<open>GuardianPromise\<close> that replaces \<open>Promise\<close>. After storing the entry it
  calls \<open>promise.then(\<dots>)\<close> to schedule the cleanup, and that call goes through the wrapper
  just installed.
\<close>

definition GuardianPromise ::
  "UnawaitedPromiseDetector \<Rightarrow> string \<Rightarrow> int \<Rightarrow> UnawaitedPromiseDetector" where
  "GuardianPromise d stack now =
     (let parsed = detector_parseStack stack;
          file = map_option fst parsed;
          line = map_option snd parsed
      in if isGuardianInternal file then d
         else (let pid = promiseCounter d + 1;
                   d1 = d\<lparr>promiseCounter := pid,
                          trackedPromises := jsmap_set (trackedPromises d) pid
                            \<lparr>tp_id = pid, tp_stack = stack, tp_createdAt = now,
                             tp_file = file, tp_line = line, isAwaited = False\<rparr>\<rparr>
               in mark_awaited d1 pid))"

text \<open>
  What \<open>checkUnawaitedPromises\<close> does to the detector: an entry that is not awaited and
  older than the threshold is reported and deleted.
\<close>

fun forget_reported ::
  "int \<Rightarrow> (nat \<times> TrackedPromiseCreation) list \<Rightarrow> UnawaitedPromiseDetector
     \<Rightarrow> UnawaitedPromiseDetector" where
  "forget_reported now [] d = d"
| "forget_reported now (entry # rest) d =
     (if isAwaited (snd entry) then forget_reported now rest d
      else if now - tp_createdAt (snd entry) > warningThreshold d
        then forget_reported now rest
               (d\<lparr>trackedPromises := jsmap_delete (trackedPromises d) (fst entry)\<rparr>)
      else forget_reported now rest d)"

definition checkUnawaitedPromises ::
  "UnawaitedPromiseDetector \<Rightarrow> int \<Rightarrow> UnawaitedPromiseDetector" where
  "checkUnawaitedPromises d now = forget_reported now (trackedPromises d) d"

text \<open>The deletion that \<open>cleanupPromise\<close> schedules.\<close>

definition cleanup_fired :: "UnawaitedPromiseDetector \<Rightarrow> nat \<Rightarrow> UnawaitedPromiseDetector" where
  "cleanup_fired d pid = d\<lparr>trackedPromises := jsmap_delete (trackedPromises d) pid\<rparr>"

definition detector_stop :: "UnawaitedPromiseDetector \<Rightarrow> UnawaitedPromiseDetector" where
  "detector_stop d = d\<lparr>trackedPromises := []\<rparr>"

datatype DetectorOp =
    Construct string int
  | Continuation nat
  | CleanupFired nat
  | CheckUnawaited int
  | DetectorStop

fun detector_step :: "UnawaitedPromiseDetector \<Rightarrow> DetectorOp \<Rightarrow> UnawaitedPromiseDetector" where
  "detector_step d (Construct stack now) = GuardianPromise d stack now"
| "detector_step d (Continuation pid) = mark_awaited d pid"
| "detector_step d (CleanupFired pid) = cleanup_fired d pid"
| "detector_step d (CheckUnawaited now) = checkUnawaitedPromises d now"
| "detector_step d DetectorStop = detector_stop d"

definition detector_run ::
  "UnawaitedPromiseDetector \<Rightarrow> DetectorOp list \<Rightarrow> UnawaitedPromiseDetector" where
  "detector_run d ops = foldl detector_step d ops"

text \<open>
  Sample inputs, all with the package installed under \<open>/app/node_modules/async-guardian\<close>.
  \<open>user_stack\<close> is what \<open>onInit\<close> captures for a promise created in user code.
  \<open>monitor_timer_stack\<close> is what \<open>onInit\<close> captures for a promise created in the monitor's
  memory monitor during a timer callback: below the frames of the hook there are only
  frames of the monitor and of Node. \<open>monitor_continuation_stack\<close> is what \<open>onInit\<close>
  captures for the promise that the patched constructor itself creates with
  \<open>promise.then(\<dots>)\<close> (unawaitedPromiseDetector.ts, line 159) when user code calls
  \<open>new Promise\<close>. \<open>monitor_constructor_stack\<close> is what the patched constructor captures
  when it is called from the memory monitor during a timer callback.
\<close>

definition user_stack :: string where
  "user_stack =
     ''Error'' @ [CHR 0x0A]
     @ ''    at PromiseTracker.onInit ''
     @ ''(/app/node_modules/async-guardian/dist/core/promiseTracker.js:131:19)'' @ [CHR 0x0A]
     @ ''    at emitInitNative (node:internal/async_hooks:202:43)'' @ [CHR 0x0A]
     @ ''    at main (/app/server.js:10:5)''"

definition memory_monitor_file :: string where
  "memory_monitor_file = ''/app/node_modules/async-guardian/dist/core/memoryMonitor.js''"

definition detector_file :: string where
  "detector_file =
     ''/app/node_modules/async-guardian/dist/instrumentation/unawaitedPromiseDetector.js''"

definition monitor_timer_stack :: string where
  "monitor_timer_stack =
     ''Error'' @ [CHR 0x0A]
     @ ''    at PromiseTracker.onInit ''
     @ ''(/app/node_modules/async-guardian/dist/core/promiseTracker.js:131:19)'' @ [CHR 0x0A]
     @ ''    at emitInitNative (node:internal/async_hooks:202:43)'' @ [CHR 0x0A]
     @ ''    at MemoryMonitor.checkMemory ('' @ memory_monitor_file @ '':88:13)'' @ [CHR 0x0A]
     @ ''    at listOnTimeout (node:internal/timers:573:17)''"

definition monitor_continuation_stack :: string where
  "monitor_continuation_stack =
     ''Error'' @ [CHR 0x0A]
     @ ''    at PromiseTracker.onInit ''
     @ ''(/app/node_modules/async-guardian/dist/core/promiseTracker.js:131:19)'' @ [CHR 0x0A]
     @ ''    at emitInitNative (node:internal/async_hooks:202:43)'' @ [CHR 0x0A]
     @ ''    at Promise.then (<anonymous>)'' @ [CHR 0x0A]
     @ ''    at promise.then ('' @ detector_file @ '':137:18)'' @ [CHR 0x0A]
     @ ''    at new GuardianPromise ('' @ detector_file @ '':159:17)'' @ [CHR 0x0A]
     @ ''    at main (/app/server.js:10:5)''"

definition monitor_constructor_stack :: string where
  "monitor_constructor_stack =
     ''Error'' @ [CHR 0x0A]
     @ ''    at new GuardianPromise ('' @ detector_file @ '':85:21)'' @ [CHR 0x0A]
     @ ''    at MemoryMonitor.checkMemory ('' @ memory_monitor_file @ '':88:13)'' @ [CHR 0x0A]
     @ ''    at listOnTimeout (node:internal/timers:573:17)''"

definition small_config :: PromiseConfig where
  "small_config =
     \<lparr>enabled = True, deadlockThreshold = 30000, checkInterval = 5000, maxTrackedPromises = 10\<rparr>"

definition eleven_inits :: "TrackerOp list" where
  "eleven_inits =
     [Init 1 ''PROMISE'' 0 user_stack 1000, Init 2 ''PROMISE'' 0 user_stack 1000,
      Init 3 ''PROMISE'' 0 user_stack 1000, Init 4 ''PROMISE'' 0 user_stack 1000,
      Init 5 ''PROMISE'' 0 user_stack 1000, Init 6 ''PROMISE'' 0 user_stack 1000,
      Init 7 ''PROMISE'' 0 user_stack 1000, Init 8 ''PROMISE'' 0 user_stack 1000,
      Init 9 ''PROMISE'' 0 user_stack 1000, Init 10 ''PROMISE'' 0 user_stack 1000,
      Init 11 ''PROMISE'' 0 user_stack 1000]"

text \<open>
  No entry of the tracker, or of the detector, has a parsed file that matches the
  monitor's own path fragments and component names.
\<close>

definition tracker_clean :: "PromiseTracker \<Rightarrow> bool" where
  "tracker_clean t = (\<forall>entry \<in> set (promises t). \<not> isGuardianInternal (p_file (snd entry)))"

definition detector_clean :: "UnawaitedPromiseDetector \<Rightarrow> bool" where
  "detector_clean d =
     (\<forall>entry \<in> set (trackedPromises d). \<not> isGuardianInternal (tp_file (snd entry)))"


text \<open>
  A tracker at its cap of six entries: five resolved ones, of which entry 5 is the
  oldest, and the pending entry 6, which is older than all of them.
\<close>

definition settled_entry :: "nat \<Rightarrow> int \<Rightarrow> TrackedPromise" where
  "settled_entry aid created =
     \<lparr>asyncId = aid, p_type = ''PROMISE'', triggerAsyncId = 0, createdAt = created,
      p_stack = user_stack, p_status = Resolved, p_file = Some ''/app/server.js'',
      p_line = Some 10\<rparr>"

definition pending_entry :: "nat \<Rightarrow> int \<Rightarrow> TrackedPromise" where
  "pending_entry aid created = (settled_entry aid created)\<lparr>p_status := Pending\<rparr>"

definition six_tracked :: PromiseTracker where
  "six_tracked =
     \<lparr>promises = [(1, settled_entry 1 50), (2, settled_entry 2 40), (3, settled_entry 3 30),
                  (4, settled_entry 4 20), (5, settled_entry 5 10), (6, pending_entry 6 5)],
      config = \<lparr>enabled = True, deadlockThreshold = 30000, checkInterval = 5000,
                maxTrackedPromises = 6\<rparr>,
      deadlockCount = 0\<rparr>"


section \<open>Properties of the event store\<close>

lemma digit_val_digit_char: "d < 10 \<Longrightarrow> digit_val (digit_char d) = d"
proof -
  assume "d < 10"
  then have "d \<in> {0, 1, 2, 3, 4, 5, 6, 7, 8, 9}" by auto
  then show ?thesis by (auto simp: digit_val_def digit_char_def)
qed

lemma parseInt_dec: "parseInt (dec n) = n"
proof (induction n rule: dec.induct)
  case (1 n)
  show ?case
  proof (cases "n < 10")
    case True
    then show ?thesis
      unfolding parseInt_def by (subst dec.simps) (simp add: digit_val_digit_char)
  next
    case False
    with 1 show ?thesis
      unfolding parseInt_def by (subst dec.simps) (simp add: digit_val_digit_char)
  qed
qed

lemma id_number_event_id: "id_number (event_id n) = n"
  by (simp add: id_number_def event_id_def parseInt_dec)

lemma eventCounter_emit: "eventCounter (fst (emit s now ty d options)) = eventCounter s + 1"
  by (simp add: emit_def Let_def split: prod.splits bool.splits)

lemma events_emit:
  "events (fst (emit s now ty d options)) =
     (if length (events s) + 1 > maxEvents then tl (events s @ [new_event s now ty d options])
      else events s @ [new_event s now ty d options])"
  by (simp add: emit_def Let_def split: prod.splits bool.splits)

lemma emitted_id_numbers:
  "\<forall>op \<in> set ops. \<not> is_Clear op \<Longrightarrow>
   map (\<lambda>e. id_number (ev_id e)) (emitted s ops)
     = [eventCounter s + 1 ..< eventCounter s + 1 + length (emitted s ops)]"
proof (induction ops arbitrary: s)
  case Nil
  show ?case by simp
next
  case (Cons op ops)
  show ?case
  proof (cases op)
    case (Emit now ty d options)
    let ?n = "length (emitted (store_step s op) ops)"
    have ih: "map (\<lambda>e. id_number (ev_id e)) (emitted (store_step s op) ops)
        = [eventCounter s + 2 ..< eventCounter s + 2 + ?n]"
      using Cons.IH [of "store_step s op"] Cons.prems Emit by (simp add: eventCounter_emit)
    have upt: "[eventCounter s + 1 ..< eventCounter s + 1 + Suc ?n]
        = (eventCounter s + 1) # [eventCounter s + 2 ..< eventCounter s + 2 + ?n]"
      by (simp add: upt_rec)
    have hd: "id_number (ev_id (new_event s now ty d options)) = eventCounter s + 1"
      by (simp add: new_event_def id_number_event_id)
    have "emitted s (op # ops) = new_event s now ty d options # emitted (store_step s op) ops"
      using Emit by simp
    then show ?thesis using ih upt hd by simp
  next
    case (On name l)
    then show ?thesis using Cons.IH [of "store_step s op"] Cons.prems by (simp add: on_def)
  next
    case Clear
    then show ?thesis using Cons.prems by simp
  qed
qed

text \<open>
  Claim C5, as the specification states it, fails: \<open>clear\<close> sets \<open>eventCounter\<close> back to
  zero, so the first event emitted after a \<open>clear\<close> carries the id \<open>evt_1\<close> again, the
  same id as the first event of the process.
\<close>

theorem event_id_repeats_after_clear:
  "map ev_id (emitted new_EventStore
      [Emit 1000 SYSTEM_INFO no_payload None, Clear, Emit 2000 SYSTEM_INFO no_payload None])
     = [''evt_1'', ''evt_1'']"
  by (simp add: new_EventStore_def new_event_def event_id_def dec.simps digit_char_def
      emit_def clear_def Let_def ee_emit_def listeners_of_def)

text \<open>
  Claim C5, amended: over any run of the store in which \<open>clear\<close> is not called, of two
  emitted events the later one has the strictly greater id number; \<open>clear\<close> resets the
  counter, so that the next event emitted after it has the id \<open>evt_1\<close>.
\<close>

theorem event_ids_increase_between_clears:
  assumes "never_cleared ops"
  shows "(\<forall>i j. i < j \<and> j < length (emitted s ops) \<longrightarrow>
            id_number (ev_id (emitted s ops ! i)) < id_number (ev_id (emitted s ops ! j)))
         \<and> ev_id (new_event (clear s) now ty d options) = ''evt_1''"
proof -
  let ?ids = "map (\<lambda>e. id_number (ev_id e)) (emitted s ops)"
  have eq: "?ids = [eventCounter s + 1 ..< eventCounter s + 1 + length (emitted s ops)]"
    using assms unfolding never_cleared_def by (rule emitted_id_numbers)
  have "id_number (ev_id (emitted s ops ! i)) < id_number (ev_id (emitted s ops ! j))"
    if "i < j" "j < length (emitted s ops)" for i j
  proof -
    have "?ids ! i = eventCounter s + 1 + i"
      unfolding eq by (rule nth_upt) (use that in simp)
    moreover have "?ids ! j = eventCounter s + 1 + j"
      unfolding eq by (rule nth_upt) (use that in simp)
    moreover have "?ids ! i = id_number (ev_id (emitted s ops ! i))"
      and "?ids ! j = id_number (ev_id (emitted s ops ! j))"
      using that by simp_all
    ultimately show ?thesis using that by simp
  qed
  moreover have "ev_id (new_event (clear s) now ty d options) = ''evt_1''"
    by (simp add: new_event_def clear_def event_id_def dec.simps digit_char_def)
  ultimately show ?thesis by blast
qed

theorem event_ids_increase_between_clears_witness:
  "never_cleared [Emit 1000 SYSTEM_INFO no_payload None, On ''event'' (Listener 1 throws_never),
                  Emit 2000 MEMORY_LEAK no_payload None]
   \<and> id_number (ev_id (emitted new_EventStore
        [Emit 1000 SYSTEM_INFO no_payload None, On ''event'' (Listener 1 throws_never),
         Emit 2000 MEMORY_LEAK no_payload None] ! 0))
     < id_number (ev_id (emitted new_EventStore
        [Emit 1000 SYSTEM_INFO no_payload None, On ''event'' (Listener 1 throws_never),
         Emit 2000 MEMORY_LEAK no_payload None] ! 1))"
proof -
  let ?ops = "[Emit 1000 SYSTEM_INFO no_payload None, On ''event'' (Listener 1 throws_never),
                  Emit 2000 MEMORY_LEAK no_payload None]"
  have h: "never_cleared ?ops" by (simp add: never_cleared_def)
  have len: "0 < (1::nat) \<and> 1 < length (emitted new_EventStore ?ops)" by simp
  note t = event_ids_increase_between_clears
             [OF h, of new_EventStore, THEN conjunct1, rule_format, OF len]
  show ?thesis using h t by blast
qed

lemma length_events_emit:
  "length (events s) \<le> maxEvents \<Longrightarrow> length (events (fst (emit s now ty d options))) \<le> maxEvents"
  by (simp add: events_emit)

lemma events_store_run:
  "\<forall>op \<in> set ops. \<not> is_Clear op \<Longrightarrow> length (events s) \<le> maxEvents \<Longrightarrow>
   events (store_run s ops)
     = drop (length (events s @ emitted s ops) - maxEvents) (events s @ emitted s ops)"
proof (induction ops arbitrary: s)
  case Nil
  then show ?case by (simp add: store_run_def)
next
  case (Cons op ops)
  show ?case
  proof (cases op)
    case (Emit now ty d options)
    let ?e = "new_event s now ty d options"
    let ?s1 = "store_step s op"
    let ?L = "emitted ?s1 ops"
    have len1: "length (events ?s1) \<le> maxEvents"
      using Cons.prems(2) Emit by (simp add: length_events_emit)
    have ih: "events (store_run ?s1 ops)
        = drop (length (events ?s1 @ ?L) - maxEvents) (events ?s1 @ ?L)"
      using Cons.IH [OF _ len1] Cons.prems(1) by simp
    have run: "store_run s (op # ops) = store_run ?s1 ops"
      by (simp add: store_run_def)
    have em: "emitted s (op # ops) = ?e # ?L"
      using Emit by simp
    show ?thesis
    proof (cases "length (events s) + 1 > maxEvents")
      case True
      then have full: "length (events s) = maxEvents" using Cons.prems(2) by simp
      have "events ?s1 = tl (events s @ [?e])"
        using True Emit by (simp add: events_emit)
      also have "\<dots> = drop 1 (events s @ [?e])"
        by (simp only: One_nat_def drop_Suc drop_0)
      finally have ev1: "events ?s1 = drop 1 (events s @ [?e])" .
      let ?all = "events s @ ?e # ?L"
      have A: "events ?s1 @ ?L = drop 1 ?all"
        unfolding ev1 using full by (cases "events s") (simp_all add: maxEvents_def)
      have len_all: "length ?all = maxEvents + 1 + length ?L"
        using full by simp
      have len1': "length (events ?s1 @ ?L) = maxEvents + length ?L"
        unfolding A using len_all by simp
      have "drop (length (events ?s1 @ ?L) - maxEvents) (events ?s1 @ ?L)
              = drop (length ?L) (drop 1 ?all)"
        unfolding len1' unfolding A by simp
      also have "\<dots> = drop (length ?L + 1) ?all"
        by (simp only: drop_drop)
      also have "\<dots> = drop (length ?all - maxEvents) ?all"
        unfolding len_all by simp
      finally show ?thesis
        unfolding run em ih by simp
    next
      case False
      then have ev1: "events ?s1 = events s @ [?e]"
        using Emit by (simp add: events_emit)
      show ?thesis unfolding run em ih ev1 by simp
    qed
  next
    case (On name l)
    have "store_run s (op # ops) = store_run (store_step s op) ops"
      by (simp add: store_run_def)
    then show ?thesis
      using Cons.IH [of "store_step s op"] Cons.prems On by (simp add: on_def)
  next
    case Clear
    then show ?thesis using Cons.prems by simp
  qed
qed

lemma fold_tally_count:
  "fold (\<lambda>e. tally (f e)) es tbl k
     = (let c = length (filter (\<lambda>e. f e = k) es) in
        if c = 0 then tbl k else Some (c + (case tbl k of None \<Rightarrow> 0 | Some c0 \<Rightarrow> c0)))"
  by (induction es arbitrary: tbl) (auto simp: tally_def Let_def split: option.splits)

lemma length_emitted_replicate:
  "length (emitted s (replicate n (Emit now ty d options))) = n"
  by (induction n arbitrary: s) simp_all

text \<open>
  Claim C10: in a store that started empty and was never cleared, the retained events
  are the last 10000 of the events emitted so far; \<open>total\<close> is their number, that is the
  number of emissions capped at 10000; and \<open>byType\<close> and \<open>bySeverity\<close> count the retained
  events only (a kind with no retained event has no entry), so what was evicted is no
  longer counted.
\<close>

theorem getEventStats_counts_retained_events:
  assumes "never_cleared ops"
  shows "events (store_run new_EventStore ops)
           = drop (length (emitted new_EventStore ops) - 10000) (emitted new_EventStore ops)
       \<and> total (getEventStats (store_run new_EventStore ops))
           = min (length (emitted new_EventStore ops)) 10000
       \<and> byType (getEventStats (store_run new_EventStore ops)) ty
           = (let c = length (filter (\<lambda>e. ev_type e = ty) (events (store_run new_EventStore ops)))
              in if c = 0 then None else Some c)
       \<and> bySeverity (getEventStats (store_run new_EventStore ops)) sev
           = (let c = length (filter (\<lambda>e. ev_severity e = sev)
                                (events (store_run new_EventStore ops)))
              in if c = 0 then None else Some c)"
proof -
  have "length (events new_EventStore) \<le> maxEvents" by (simp add: new_EventStore_def)
  from events_store_run [OF assms [unfolded never_cleared_def] this]
  have ev: "events (store_run new_EventStore ops)
           = drop (length (emitted new_EventStore ops) - 10000) (emitted new_EventStore ops)"
    by (simp add: new_EventStore_def maxEvents_def)
  have "total (getEventStats (store_run new_EventStore ops))
          = length (events (store_run new_EventStore ops))"
    by (simp add: getEventStats_def)
  also have "\<dots> = min (length (emitted new_EventStore ops)) 10000"
    unfolding ev by simp
  finally have tot: "total (getEventStats (store_run new_EventStore ops))
           = min (length (emitted new_EventStore ops)) 10000" .
  show ?thesis
    using ev tot by (simp add: getEventStats_def fold_tally_count Let_def)
qed

theorem getEventStats_total_stays_at_cap:
  "never_cleared (replicate 10001 (Emit 1000 SYSTEM_INFO no_payload None))
   \<and> total (getEventStats (store_run new_EventStore
        (replicate 10001 (Emit 1000 SYSTEM_INFO no_payload None)))) = 10000"
proof -
  have h: "never_cleared (replicate 10001 (Emit 1000 SYSTEM_INFO no_payload None))"
    by (simp add: never_cleared_def)
  show ?thesis
    using h getEventStats_counts_retained_events [OF h] by (simp add: length_emitted_replicate)
qed

lemma call_listeners_char:
  "call_listeners ls ev
     = (map listener_id (takeWhile (\<lambda>l. \<not> throws l ev) ls
                         @ take 1 (dropWhile (\<lambda>l. \<not> throws l ev) ls)),
        \<exists>l \<in> set ls. throws l ev)"
  by (induction ls) auto

text \<open>
  Claim C2, as the specification states it, fails: with two subscribers of \<open>event\<close> of
  which the first throws, \<open>emit\<close> calls the first only and ends by its exception; the
  second subscriber is never called.
\<close>

theorem emit_stops_at_throwing_listener:
  "snd (emit two_subscribers 1000 SYSTEM_INFO no_payload None) = ([1], True)"
  by (simp add: two_subscribers_def on_def new_EventStore_def emit_def Let_def ee_emit_def
      listeners_of_def throws_always_def throws_never_def)

text \<open>
  Claim C2, amended: \<open>emit\<close> calls synchronously the subscribers of \<open>event\<close> in their
  subscription order and then the subscribers of the event's type in their subscription
  order, up to and including the first subscriber that throws. When none throws all of
  them are called and \<open>emit\<close> returns; when one throws the remaining ones are not called
  and the exception leaves \<open>emit\<close>.
\<close>

theorem emit_calls_listeners_until_first_throw:
  "snd (emit s now ty d options)
     = (let ev = new_event s now ty d options;
            ls = listeners_of (eventEmitter s) ''event''
                   @ listeners_of (eventEmitter s) (type_name ty)
        in (map listener_id (takeWhile (\<lambda>l. \<not> throws l ev) ls
                             @ take 1 (dropWhile (\<lambda>l. \<not> throws l ev) ls)),
            \<exists>l \<in> set ls. throws l ev))"
proof -
  let ?ev = "new_event s now ty d options"
  let ?P = "\<lambda>l. \<not> throws l ?ev"
  let ?l1 = "listeners_of (eventEmitter s) ''event''"
  let ?l2 = "listeners_of (eventEmitter s) (type_name ty)"
  show ?thesis
  proof (cases "\<exists>l \<in> set ?l1. throws l ?ev")
    case True
    then obtain l where l: "l \<in> set ?l1" "\<not> ?P l" by blast
    have tw: "takeWhile ?P (?l1 @ ?l2) = takeWhile ?P ?l1"
      using l by simp
    have dw: "dropWhile ?P (?l1 @ ?l2) = dropWhile ?P ?l1 @ ?l2"
      using l by simp
    have ne: "dropWhile ?P ?l1 \<noteq> []"
      using l by simp blast
    have "snd (emit s now ty d options) = call_listeners ?l1 ?ev"
      using True by (auto simp: emit_def Let_def ee_emit_def call_listeners_char)
    then show ?thesis
      using True tw dw ne by (cases "dropWhile ?P ?l1") (auto simp: Let_def call_listeners_char)
  next
    case False
    then have all: "\<forall>l \<in> set ?l1. ?P l" by blast
    have tw: "takeWhile ?P (?l1 @ ?l2) = ?l1 @ takeWhile ?P ?l2"
      using all by simp
    have dw: "dropWhile ?P (?l1 @ ?l2) = dropWhile ?P ?l2"
      using all by simp
    have t1: "takeWhile ?P ?l1 = ?l1" "dropWhile ?P ?l1 = []"
      using all by simp_all
    have "snd (emit s now ty d options)
            = (map listener_id ?l1 @ fst (call_listeners ?l2 ?ev), snd (call_listeners ?l2 ?ev))"
      using False by (auto simp: emit_def Let_def ee_emit_def call_listeners_char t1)
    then show ?thesis
      using False tw dw by (auto simp: Let_def call_listeners_char)
  qed
qed

theorem emit_calls_listeners_until_first_throw_witness:
  "snd (emit type_then_event_subscribers 1000 SYSTEM_INFO no_payload None) = ([2, 1], False)"
  using emit_calls_listeners_until_first_throw
          [of type_then_event_subscribers 1000 SYSTEM_INFO no_payload None]
  by (simp add: type_then_event_subscribers_def on_def new_EventStore_def listeners_of_def
      throws_never_def Let_def)

section \<open>Properties of the health checker\<close>

lemma monitor_status_unhealthy:
  "\<exists>entry \<in> set ms. errors (snd entry) > 10 \<Longrightarrow> monitor_status st ms = unhealthy_status"
  by (induction ms arbitrary: st) auto

lemma getHealth_status_small_heap:
  "heapUsed \<le> 104857600 \<Longrightarrow>
   status (getHealth h heapUsed now later) = monitor_status healthy_status (monitorHealth h)"
  by (simp add: getHealth_def Let_def)

lemma failure_step:
  "recordMonitorCheck
     \<lparr>startTime = 0, eventCount = 0,
      monitorHealth = [(''memory'', \<lparr>healthy = False, lastCheck = 1000, errors = n\<rparr>)]\<rparr>
     1000 ''memory'' False
   = \<lparr>startTime = 0, eventCount = 0,
      monitorHealth = [(''memory'', \<lparr>healthy = False, lastCheck = 1000, errors = Suc n\<rparr>)]\<rparr>"
  by (simp add: recordMonitorCheck_def)

lemma first_failure:
  "recordMonitorCheck (new_HealthChecker 0) 1000 ''memory'' False
   = \<lparr>startTime = 0, eventCount = 0,
      monitorHealth = [(''memory'', \<lparr>healthy = False, lastCheck = 1000, errors = Suc 0\<rparr>)]\<rparr>"
  by (simp add: recordMonitorCheck_def new_HealthChecker_def)

text \<open>Eleven failed checks of one monitor lead from a new checker to \<open>eleven_failures\<close>.\<close>

lemma eleven_failures_reached:
  "((\<lambda>h. recordMonitorCheck h 1000 ''memory'' False) ^^ 11) (new_HealthChecker 0)
     = eleven_failures"
proof -
  have "(11::nat) = Suc (Suc (Suc (Suc (Suc (Suc (Suc (Suc (Suc (Suc (Suc 0))))))))))" by simp
  then show ?thesis
    by (simp only: funpow.simps o_def id_def first_failure failure_step eleven_failures_def
        funpow_swap1)
qed

text \<open>
  Claim C1 says that heap usage above 100 MB never improves a status that is already
  worse, so that a monitor with more than 10 consecutive errors makes \<open>getHealth\<close> return
  unhealthy whatever the heap usage. The code's test \<open>memoryMB > 100\<close> assigns degraded
  without looking at the status found so far: with a monitor at 11 consecutive errors
  and 150 MB of heap in use (157286400 bytes), \<open>getHealth\<close> returns degraded.
\<close>

theorem getHealth_memory_test_overrides_unhealthy:
  "status (getHealth eleven_failures 157286400 2000 2000) = degraded_status"
  by (simp add: getHealth_def eleven_failures_def Let_def)

section \<open>Properties of the custom metrics\<close>

lemma counters_remember_labels [simp]: "counters (remember_labels m key lbls) = counters m"
  by (simp add: remember_labels_def split: option.splits)

lemma histograms_remember_labels [simp]: "histograms (remember_labels m key lbls) = histograms m"
  by (simp add: remember_labels_def split: option.splits)

lemma or_zero_not_NaN [simp]: "or_zero x \<noteq> NaN"
  by (simp add: or_zero_def)

lemma getCounter_not_NaN: "getCounter localeCompare m n l \<noteq> NaN"
  by (simp add: getCounter_def split: option.splits)

lemma getCounter_incrementCounter:
  "getCounter localeCompare (incrementCounter localeCompare m name val lbls) name lbls
     = or_zero (plus_number (getCounter localeCompare m name lbls)
                  (case val of Some v \<Rightarrow> v | None \<Rightarrow> Finite 1))"
  by (simp add: getCounter_def incrementCounter_def Let_def split: option.splits)

lemma less_eq_number_refl: "x \<noteq> NaN \<Longrightarrow> less_eq_number x x"
  by (cases x) simp_all

lemma less_eq_number_trans:
  "less_eq_number x y \<Longrightarrow> less_eq_number y z \<Longrightarrow> less_eq_number x z"
  by (cases x; cases y; cases z) simp_all

lemma raise_keeps_order:
  "c \<noteq> NaN \<Longrightarrow> less_eq_number (Finite 0) v \<Longrightarrow> less_eq_number c (or_zero (plus_number c v))"
  by (cases c; cases v) (simp_all add: or_zero_def)

lemma getCounter_step_mono:
  assumes "raises_only op"
  shows "less_eq_number (getCounter localeCompare m n l)
           (getCounter localeCompare (metric_step localeCompare m op) n l)"
proof (cases op)
  case (IncrementCounter name val lbls)
  show ?thesis
  proof (cases "getKey localeCompare name lbls = getKey localeCompare n l")
    case True
    have amount: "less_eq_number (Finite 0) (case val of Some v \<Rightarrow> v | None \<Rightarrow> Finite 1)"
      using assms IncrementCounter by (simp split: option.splits)
    have same: "getCounter localeCompare m' n l = getCounter localeCompare m' name lbls" for m'
      using True by (simp add: getCounter_def)
    show ?thesis
      unfolding IncrementCounter metric_step.simps same getCounter_incrementCounter
      by (rule raise_keeps_order [OF getCounter_not_NaN amount])
  next
    case False
    then have "getCounter localeCompare (metric_step localeCompare m op) n l
                 = getCounter localeCompare m n l"
      using IncrementCounter by (simp add: getCounter_def incrementCounter_def Let_def)
    then show ?thesis by (simp add: less_eq_number_refl getCounter_not_NaN)
  qed
next
  case (SetGauge name v lbls)
  then have "getCounter localeCompare (metric_step localeCompare m op) n l
               = getCounter localeCompare m n l"
    by (simp add: getCounter_def setGauge_def Let_def)
  then show ?thesis by (simp add: less_eq_number_refl getCounter_not_NaN)
next
  case (RecordHistogram name v lbls)
  then have "getCounter localeCompare (metric_step localeCompare m op) n l
               = getCounter localeCompare m n l"
    by (simp add: getCounter_def recordHistogram_def Let_def)
  then show ?thesis by (simp add: less_eq_number_refl getCounter_not_NaN)
next
  case ClearMetrics
  then show ?thesis using assms by simp
qed

lemma getCounter_run_mono:
  "all_raise_only ops \<Longrightarrow>
   less_eq_number (getCounter localeCompare m n l)
     (getCounter localeCompare (metric_run localeCompare m ops) n l)"
proof (induction ops arbitrary: m)
  case Nil
  show ?case by (simp add: metric_run_def less_eq_number_refl getCounter_not_NaN)
next
  case (Cons op ops)
  have first: "less_eq_number (getCounter localeCompare m n l)
                 (getCounter localeCompare (metric_step localeCompare m op) n l)"
    using Cons.prems by (simp add: all_raise_only_def getCounter_step_mono)
  have later: "less_eq_number (getCounter localeCompare (metric_step localeCompare m op) n l)
                 (getCounter localeCompare
                    (metric_run localeCompare (metric_step localeCompare m op) ops) n l)"
    using Cons.prems by (intro Cons.IH) (simp add: all_raise_only_def)
  show ?case
    using less_eq_number_trans [OF first later] by (simp add: metric_run_def)
qed

text \<open>
  Claim C8, as the specification states it, fails in two ways, for \<open>incrementCounter\<close>
  adds whatever number it is given. An increment by \<open>-5\<close> takes a new counter from 0 to
  \<open>-5\<close>: the value has decreased and is negative. And an increment by \<open>NaN\<close> of a counter
  that stands at 5 stores \<open>NaN\<close>, which \<open>getCounter\<close> reads as 0: the value has decreased
  from 5 to 0.
\<close>

theorem incrementCounter_lowers_counter:
  "getCounter code_order
     (incrementCounter code_order new_CustomMetrics ''requests'' (Some (Finite (- 5))) None)
     ''requests'' None = Finite (- 5)
   \<and> getCounter code_order
       (incrementCounter code_order new_CustomMetrics ''x'' (Some (Finite 5)) None)
       ''x'' None = Finite 5
   \<and> getCounter code_order
       (incrementCounter code_order
          (incrementCounter code_order new_CustomMetrics ''x'' (Some (Finite 5)) None)
          ''x'' (Some NaN) None)
       ''x'' None = Finite 0"
  by (simp add: getCounter_def incrementCounter_def new_CustomMetrics_def getKey_def
      remember_labels_def or_zero_def Let_def)

text \<open>
  Claim C8, amended: a counter starts at 0, and \<open>incrementCounter\<close> adds the amount it is
  given (1 when none is given) to the value read for the name and label set, without
  testing it; the value \<open>getCounter\<close> returns afterwards is that sum, read with \<open>|| 0\<close>.
  Over any run of operations in which every amount is a number with \<open>0 <= amount\<close> (so
  neither negative nor \<open>NaN\<close>) and the registry is not cleared, the value \<open>getCounter\<close>
  returns for any name and label set never decreases, and from a new registry it is never
  negative.
\<close>

theorem counter_grows_under_nonnegative_amounts:
  "getCounter localeCompare (incrementCounter localeCompare m name val lbls) name lbls
     = or_zero (plus_number (getCounter localeCompare m name lbls)
                  (case val of Some v \<Rightarrow> v | None \<Rightarrow> Finite 1))
   \<and> getCounter localeCompare new_CustomMetrics n l = Finite 0
   \<and> (all_raise_only ops \<longrightarrow>
        less_eq_number (getCounter localeCompare m n l)
          (getCounter localeCompare (metric_run localeCompare m ops) n l)
        \<and> less_eq_number (Finite 0)
            (getCounter localeCompare (metric_run localeCompare new_CustomMetrics ops) n l))"
proof -
  have start: "getCounter localeCompare new_CustomMetrics n l = Finite 0"
    by (simp add: getCounter_def new_CustomMetrics_def)
  have "less_eq_number (Finite 0)
          (getCounter localeCompare (metric_run localeCompare new_CustomMetrics ops) n l)"
    if "all_raise_only ops"
    using getCounter_run_mono [OF that, of localeCompare new_CustomMetrics n l]
    unfolding start .
  then show ?thesis
    using getCounter_incrementCounter getCounter_run_mono start by blast
qed

theorem counter_grows_under_nonnegative_amounts_witness:
  "all_raise_only sample_metric_ops
   \<and> less_eq_number (getCounter code_order new_CustomMetrics ''requests'' None)
       (getCounter code_order (metric_run code_order new_CustomMetrics sample_metric_ops)
          ''requests'' None)
   \<and> getCounter code_order (metric_run code_order new_CustomMetrics sample_metric_ops)
       ''requests'' None = Finite 3.5"
proof -
  have h: "all_raise_only sample_metric_ops"
    by (simp add: all_raise_only_def sample_metric_ops_def)
  have v: "getCounter code_order (metric_run code_order new_CustomMetrics sample_metric_ops)
             ''requests'' None = Finite 3.5"
    by (simp add: sample_metric_ops_def metric_run_def getCounter_def incrementCounter_def
        setGauge_def new_CustomMetrics_def getKey_def remember_labels_def or_zero_def Let_def)
  from counter_grows_under_nonnegative_amounts
         [where localeCompare = code_order and m = new_CustomMetrics and ops = sample_metric_ops
            and n = "''requests''" and l = None and name = "''requests''" and val = None
            and lbls = None] h
  have "less_eq_number (getCounter code_order new_CustomMetrics ''requests'' None)
       (getCounter code_order (metric_run code_order new_CustomMetrics sample_metric_ops)
          ''requests'' None)"
    by blast
  with h v show ?thesis by blast
qed

lemma floor_index_percent:
  "floor_index n 0.5 = n * 50 div 100"
  "floor_index n 0.95 = n * 95 div 100"
  "floor_index n 0.99 = n * 99 div 100"
proof -
  have "real n * 0.5 = real (n * 50) / real 100" "real n * 0.95 = real (n * 95) / real 100"
    "real n * 0.99 = real (n * 99) / real 100"
    by simp_all
  then show "floor_index n 0.5 = n * 50 div 100"
    "floor_index n 0.95 = n * 95 div 100"
    "floor_index n 0.99 = n * 99 div 100"
    unfolding floor_index_def by (simp_all only: floor_divide_of_nat_eq nat_int)
qed

lemma foldl_plus_sum_list: "foldl (+) a xs = a + sum_list (xs :: real list)"
  by (induction xs arbitrary: a) simp_all

lemma getHistogramStats_char:
  assumes "histograms m (getKey localeCompare name lbls) = Some vs" "vs \<noteq> []"
  shows "getHistogramStats localeCompare m name lbls
           = Some \<lparr>h_count = length vs, h_sum = sum_list vs,
                   h_avg = sum_list vs / real (length vs),
                   h_min = sort vs ! 0, h_max = sort vs ! (length vs - 1),
                   p50 = sort vs ! (length vs * 50 div 100),
                   p95 = sort vs ! (length vs * 95 div 100),
                   p99 = sort vs ! (length vs * 99 div 100)\<rparr>"
proof -
  have "sum_list (sort vs) = sum_list vs"
    by (metis mset_sort sum_mset_sum_list)
  then show ?thesis
    using assms unfolding getHistogramStats_def floor_index_percent
    by (simp add: Let_def foldl_plus_sum_list)
qed

lemma histograms_recordHistogram:
  "histograms (recordHistogram localeCompare m name v lbls) (getKey localeCompare name lbls)
     = Some (let pushed = (case histograms m (getKey localeCompare name lbls) of
                             Some vs \<Rightarrow> vs | None \<Rightarrow> []) @ [v]
             in if length pushed > 1000 then tl pushed else pushed)"
  by (simp add: recordHistogram_def Let_def)

lemma histograms_record_all:
  "length old + length vs \<le> 1000 \<Longrightarrow> vs \<noteq> [] \<Longrightarrow>
   (case histograms m (getKey localeCompare name None) of Some xs \<Rightarrow> xs | None \<Rightarrow> []) = old \<Longrightarrow>
   histograms (record_all localeCompare m name vs) (getKey localeCompare name None) = Some (old @ vs)"
proof (induction vs arbitrary: m old)
  case Nil
  then show ?case by simp
next
  case (Cons v vs)
  let ?m1 = "recordHistogram localeCompare m name v None"
  have h1: "histograms ?m1 (getKey localeCompare name None) = Some (old @ [v])"
    using Cons.prems by (simp add: histograms_recordHistogram Let_def)
  have run: "record_all localeCompare m name (v # vs) = record_all localeCompare ?m1 name vs"
    by (simp add: record_all_def)
  show ?case
  proof (cases "vs = []")
    case True
    then show ?thesis using h1 by (simp add: record_all_def)
  next
    case False
    have "histograms (record_all localeCompare ?m1 name vs) (getKey localeCompare name None) = Some ((old @ [v]) @ vs)"
      using Cons.prems False h1 by (intro Cons.IH) simp_all
    then show ?thesis unfolding run by simp
  qed
qed

lemma one_to_hundred_nth: "i < 100 \<Longrightarrow> one_to_hundred ! i = real (Suc i)"
  unfolding one_to_hundred_def by simp

lemma sort_one_to_hundred: "sort one_to_hundred = one_to_hundred"
proof -
  have "sorted one_to_hundred"
    unfolding one_to_hundred_def by (simp add: sorted_map sorted_wrt_iff_nth_less)
  then show ?thesis by (rule sorted_sort_id)
qed

lemma sum_list_map_real: "sum_list (map real xs) = real (sum_list xs)"
  by (induction xs) simp_all

lemma sum_upt_hundred: "sum_list [1 ..< 101 :: nat] = 5050"
  by code_simp

lemma sum_one_to_hundred: "sum_list one_to_hundred = 5050"
  unfolding one_to_hundred_def sum_list_map_real sum_upt_hundred by simp

lemma length_one_to_hundred: "length one_to_hundred = 100"
  by (simp add: one_to_hundred_def)

lemma histogram_one_to_hundred:
  "histograms (record_all localeCompare new_CustomMetrics ''test'' one_to_hundred) (getKey localeCompare ''test'' None)
     = Some one_to_hundred"
proof -
  have "histograms (record_all localeCompare new_CustomMetrics ''test'' one_to_hundred) (getKey localeCompare ''test'' None)
     = Some ([] @ one_to_hundred)"
    by (rule histograms_record_all)
       (auto simp: length_one_to_hundred new_CustomMetrics_def one_to_hundred_def)
  then show ?thesis by simp
qed

text \<open>
  Claim C9: for a histogram with the observations \<open>vs\<close>, \<open>getHistogramStats\<close> works on
  \<open>sort vs\<close>, which is \<open>vs\<close> rearranged in ascending order: \<open>count\<close> is its length, \<open>sum\<close> its
  sum, \<open>avg\<close> the quotient of the two, \<open>min\<close> and \<open>max\<close> its first and last elements, and
  the percentile \<open>p_k\<close>, for \<open>k\<close> = 50, 95, 99, is its element at index
  \<open>floor(count * k / 100)\<close>, an index below its length. For the observations 1 to 100
  recorded in this order: \<open>count\<close> = 100, \<open>sum\<close> = 5050, \<open>avg\<close> = 50.5, \<open>min\<close> = 1,
  \<open>max\<close> = 100, and the percentiles are the elements at the indices 50, 95 and 99, that is
  \<open>p50\<close> = 51, \<open>p95\<close> = 96 and \<open>p99\<close> = 100, each within 1 of 50, 95 and 99.
\<close>

theorem getHistogramStats_percentiles:
  "(histograms m (getKey localeCompare name lbls) = Some vs \<and> vs \<noteq> [] \<longrightarrow>
      getHistogramStats localeCompare m name lbls
        = Some \<lparr>h_count = length vs, h_sum = sum_list vs,
                 h_avg = sum_list vs / real (length vs),
                 h_min = sort vs ! 0, h_max = sort vs ! (length vs - 1),
                 p50 = sort vs ! (length vs * 50 div 100),
                 p95 = sort vs ! (length vs * 95 div 100),
                 p99 = sort vs ! (length vs * 99 div 100)\<rparr>
      \<and> sorted (sort vs) \<and> mset (sort vs) = mset vs
      \<and> length vs * 99 div 100 < length (sort vs))
   \<and> getHistogramStats localeCompare
        (record_all localeCompare new_CustomMetrics ''test'' one_to_hundred) ''test'' None
        = Some \<lparr>h_count = 100, h_sum = 5050, h_avg = 50.5, h_min = 1, h_max = 100,
                 p50 = 51, p95 = 96, p99 = 100\<rparr>"
proof -
  have general: "getHistogramStats localeCompare m name lbls
        = Some \<lparr>h_count = length vs, h_sum = sum_list vs,
                 h_avg = sum_list vs / real (length vs),
                 h_min = sort vs ! 0, h_max = sort vs ! (length vs - 1),
                 p50 = sort vs ! (length vs * 50 div 100),
                 p95 = sort vs ! (length vs * 95 div 100),
                 p99 = sort vs ! (length vs * 99 div 100)\<rparr>
      \<and> sorted (sort vs) \<and> mset (sort vs) = mset vs
      \<and> length vs * 99 div 100 < length (sort vs)"
    if "histograms m (getKey localeCompare name lbls) = Some vs" "vs \<noteq> []"
  proof -
    have "0 < length vs" using that by simp
    then have "length vs * 99 div 100 < length vs"
      by (simp add: div_less_iff_less_mult)
    then show ?thesis using getHistogramStats_char [OF that] by simp
  qed
  have "getHistogramStats localeCompare
        (record_all localeCompare new_CustomMetrics ''test'' one_to_hundred) ''test'' None
        = Some \<lparr>h_count = 100, h_sum = 5050, h_avg = 50.5, h_min = 1, h_max = 100,
                 p50 = 51, p95 = 96, p99 = 100\<rparr>"
    by (subst getHistogramStats_char [OF histogram_one_to_hundred])
       (simp_all add: sort_one_to_hundred sum_one_to_hundred length_one_to_hundred
          one_to_hundred_nth, simp add: one_to_hundred_def)
  with general show ?thesis by blast
qed

theorem getHistogramStats_percentiles_witness:
  "histograms (record_all code_order new_CustomMetrics ''duration'' [100, 200, 150])
       (getKey code_order ''duration'' None) = Some [100, 200, 150]
   \<and> getHistogramStats code_order
       (record_all code_order new_CustomMetrics ''duration'' [100, 200, 150]) ''duration'' None
       = Some \<lparr>h_count = 3, h_sum = 450, h_avg = 150, h_min = 100, h_max = 200,
                p50 = 150, p95 = 200, p99 = 200\<rparr>"
proof -
  have h: "histograms (record_all code_order new_CustomMetrics ''duration'' [100, 200, 150])
       (getKey code_order ''duration'' None) = Some [100, 200, 150]"
    by (simp add: record_all_def recordHistogram_def new_CustomMetrics_def getKey_def
        remember_labels_def Let_def)
  have ne: "[100, 200, 150 :: real] \<noteq> []" by simp
  from getHistogramStats_percentiles
         [where m = "record_all code_order new_CustomMetrics ''duration'' [100, 200, 150]"
            and localeCompare = code_order and name = "''duration''" and lbls = None
            and vs = "[100, 200, 150]",
          THEN conjunct1, rule_format, OF conjI [OF h ne], THEN conjunct1]
  have "getHistogramStats code_order
       (record_all code_order new_CustomMetrics ''duration'' [100, 200, 150]) ''duration'' None
       = Some \<lparr>h_count = 3, h_sum = 450, h_avg = 150, h_min = 100, h_max = 200,
                p50 = 150, p95 = 200, p99 = 200\<rparr>"
    by simp
  with h show ?thesis by blast
qed
section \<open>Properties of the alert router\<close>

lemma cache_checkRateLimit [simp]:
  "deduplicationCache (snd (checkRateLimit r now nm limit)) = deduplicationCache r"
  by (simp add: checkRateLimit_def Let_def split: option.splits)

lemma stretch_effect_refl: "stretch_effect k began w w"
  by (simp add: stretch_effect_def)

lemma stretch_effect_trans:
  assumes "stretch_effect k began w w1" and "stretch_effect k began w1 w2"
  shows "stretch_effect k began w w2"
proof -
  from assms(1) obtain new1 cs1 where
    a1: "deduplicationCache (router w1) = deduplicationCache (router w)" and
    b1: "clock w \<le> clock w1" and
    l1: "dispatched w1 = dispatched w @ new1" and
    d1: "\<forall>d \<in> set new1. \<not> d_ok d \<and> d_key d = k \<and> d_began d = began
            \<and> clock w \<le> d_time d \<and> d_time d \<le> d_recorded d \<and> d_recorded d \<le> clock w1" and
    s1: "suspended w1 = suspended w @ cs1" and
    c1: "\<forall>c \<in> set cs1. c_key c = k \<and> c_began c = began
            \<and> clock w \<le> c_called c \<and> c_called c \<le> clock w1"
    unfolding stretch_effect_def by blast
  from assms(2) obtain new2 cs2 where
    a2: "deduplicationCache (router w2) = deduplicationCache (router w1)" and
    b2: "clock w1 \<le> clock w2" and
    l2: "dispatched w2 = dispatched w1 @ new2" and
    d2: "\<forall>d \<in> set new2. \<not> d_ok d \<and> d_key d = k \<and> d_began d = began
            \<and> clock w1 \<le> d_time d \<and> d_time d \<le> d_recorded d \<and> d_recorded d \<le> clock w2" and
    s2: "suspended w2 = suspended w1 @ cs2" and
    c2: "\<forall>c \<in> set cs2. c_key c = k \<and> c_began c = began
            \<and> clock w1 \<le> c_called c \<and> c_called c \<le> clock w2"
    unfolding stretch_effect_def by blast
  have l: "dispatched w2 = dispatched w @ (new1 @ new2)" using l1 l2 by simp
  have s: "suspended w2 = suspended w @ (cs1 @ cs2)" using s1 s2 by simp
  have d: "\<forall>d \<in> set (new1 @ new2). \<not> d_ok d \<and> d_key d = k \<and> d_began d = began
            \<and> clock w \<le> d_time d \<and> d_time d \<le> d_recorded d \<and> d_recorded d \<le> clock w2"
  proof
    fix e assume "e \<in> set (new1 @ new2)"
    then consider "e \<in> set new1" | "e \<in> set new2" by auto
    then show "\<not> d_ok e \<and> d_key e = k \<and> d_began e = began
            \<and> clock w \<le> d_time e \<and> d_time e \<le> d_recorded e \<and> d_recorded e \<le> clock w2"
    proof cases
      case 1
      with d1 have "\<not> d_ok e \<and> d_key e = k \<and> d_began e = began
            \<and> clock w \<le> d_time e \<and> d_time e \<le> d_recorded e \<and> d_recorded e \<le> clock w1"
        by (rule bspec)
      then show ?thesis using b2 by simp
    next
      case 2
      with d2 have "\<not> d_ok e \<and> d_key e = k \<and> d_began e = began
            \<and> clock w1 \<le> d_time e \<and> d_time e \<le> d_recorded e \<and> d_recorded e \<le> clock w2"
        by (rule bspec)
      then show ?thesis using b1 by simp
    qed
  qed
  have c: "\<forall>c \<in> set (cs1 @ cs2). c_key c = k \<and> c_began c = began
            \<and> clock w \<le> c_called c \<and> c_called c \<le> clock w2"
  proof
    fix x assume "x \<in> set (cs1 @ cs2)"
    then consider "x \<in> set cs1" | "x \<in> set cs2" by auto
    then show "c_key x = k \<and> c_began x = began \<and> clock w \<le> c_called x \<and> c_called x \<le> clock w2"
    proof cases
      case 1
      with c1 have "c_key x = k \<and> c_began x = began
            \<and> clock w \<le> c_called x \<and> c_called x \<le> clock w1"
        by (rule bspec)
      then show ?thesis using b2 by simp
    next
      case 2
      with c2 have "c_key x = k \<and> c_began x = began
            \<and> clock w1 \<le> c_called x \<and> c_called x \<le> clock w2"
        by (rule bspec)
      then show ?thesis using b1 by simp
    qed
  qed
  show ?thesis
    unfolding stretch_effect_def
  proof (intro conjI)
    show "deduplicationCache (router w2) = deduplicationCache (router w)" using a1 a2 by simp
    show "clock w \<le> clock w2" using b1 b2 by simp
    show "\<exists>new. dispatched w2 = dispatched w @ new
            \<and> (\<forall>d \<in> set new. \<not> d_ok d \<and> d_key d = k \<and> d_began d = began
                  \<and> clock w \<le> d_time d \<and> d_time d \<le> d_recorded d
                  \<and> d_recorded d \<le> clock w2)"
      using l d by blast
    show "\<exists>cs. suspended w2 = suspended w @ cs
            \<and> (\<forall>c \<in> set cs. c_key c = k \<and> c_began c = began
                  \<and> clock w \<le> c_called c \<and> c_called c \<le> clock w2)"
      using s c by blast
  qed
qed

lemma stretch_limited:
  "deduplicationCache r1 = deduplicationCache (router w) \<Longrightarrow>
   stretch_effect k began w (w\<lparr>router := r1\<rparr>)"
  by (simp add: stretch_effect_def)

lemma stretch_thrown:
  "deduplicationCache r1 = deduplicationCache (router w) \<Longrightarrow>
   stretch_effect k began w
     (w\<lparr>router := r1, clock := clock w + int ms,
        dispatched := dispatched w
          @ [\<lparr>d_route = i, d_key = k, d_began = began, d_time = clock w,
              d_recorded = clock w + int ms, d_ok = False\<rparr>]\<rparr>)"
  by (simp add: stretch_effect_def)

lemma stretch_suspend:
  "deduplicationCache r1 = deduplicationCache (router w) \<Longrightarrow>
   stretch_effect k began w
     (w\<lparr>router := r1, clock := clock w + int ms,
        suspended := suspended w
          @ [\<lparr>c_event = event, c_key = k, c_began = began, c_route = i,
              c_rest = rest, c_called = clock w, c_fulfils = ok\<rparr>]\<rparr>)"
  by (simp add: stretch_effect_def)

lemma route_from_effect: "stretch_effect k began w (route_from event k began i rts w)"
proof (induction rts arbitrary: i w)
  case Nil
  show ?case by (simp add: stretch_effect_refl)
next
  case (Cons rt rest)
  show ?case
  proof (cases "route_enabled rt \<noteq> Some True
                \<or> (case route_filter rt of Some f \<Rightarrow> \<not> f event | None \<Rightarrow> False)")
    case True
    then have "route_from event k began i (rt # rest) w = route_from event k began (i + 1) rest w"
      by auto
    then show ?thesis using Cons.IH by simp
  next
    case False
    obtain allowed r1 where
      rl: "(case route_rateLimit rt of
              Some limit \<Rightarrow> checkRateLimit (router w) (clock w) (route_name rt) limit
            | None \<Rightarrow> (True, router w)) = (allowed, r1)"
      by fastforce
    have c1: "deduplicationCache r1 = deduplicationCache (router w)"
    proof (cases "route_rateLimit rt")
      case None
      then show ?thesis using rl by simp
    next
      case (Some limit)
      then have "r1 = snd (checkRateLimit (router w) (clock w) (route_name rt) limit)"
        using rl by simp
      then show ?thesis by simp
    qed
    show ?thesis
    proof (cases allowed)
      case False
      have eq: "route_from event k began i (rt # rest) w
                  = route_from event k began (i + 1) rest (w\<lparr>router := r1\<rparr>)"
        using \<open>\<not> (route_enabled rt \<noteq> Some True
                \<or> (case route_filter rt of Some f \<Rightarrow> \<not> f event | None \<Rightarrow> False))\<close> rl False
        by simp
      show ?thesis
        unfolding eq by (rule stretch_effect_trans [OF stretch_limited [OF c1] Cons.IH])
    next
      case True
      note allowed = True
      show ?thesis
      proof (cases "route_handler rt event (clock w)")
        case (Thrown ms)
        have eq: "route_from event k began i (rt # rest) w
                  = route_from event k began (i + 1) rest
                      (w\<lparr>router := r1, clock := clock w + int ms,
                         dispatched := dispatched w
                           @ [\<lparr>d_route = i, d_key = k, d_began = began, d_time = clock w,
                               d_recorded = clock w + int ms, d_ok = False\<rparr>]\<rparr>)"
          using \<open>\<not> (route_enabled rt \<noteq> Some True
                \<or> (case route_filter rt of Some f \<Rightarrow> \<not> f event | None \<Rightarrow> False))\<close>
            rl allowed Thrown
          by simp
        show ?thesis
          unfolding eq by (rule stretch_effect_trans [OF stretch_thrown [OF c1] Cons.IH])
      next
        case (Fulfilled ms)
        have eq: "route_from event k began i (rt # rest) w
                  = w\<lparr>router := r1, clock := clock w + int ms,
                      suspended := suspended w
                        @ [\<lparr>c_event = event, c_key = k, c_began = began, c_route = i,
                            c_rest = rest, c_called = clock w, c_fulfils = True\<rparr>]\<rparr>"
          using \<open>\<not> (route_enabled rt \<noteq> Some True
                \<or> (case route_filter rt of Some f \<Rightarrow> \<not> f event | None \<Rightarrow> False))\<close>
            rl allowed Fulfilled
          by simp
        show ?thesis unfolding eq by (rule stretch_suspend [OF c1])
      next
        case (Rejected ms)
        have eq: "route_from event k began i (rt # rest) w
                  = w\<lparr>router := r1, clock := clock w + int ms,
                      suspended := suspended w
                        @ [\<lparr>c_event = event, c_key = k, c_began = began, c_route = i,
                            c_rest = rest, c_called = clock w, c_fulfils = False\<rparr>]\<rparr>"
          using \<open>\<not> (route_enabled rt \<noteq> Some True
                \<or> (case route_filter rt of Some f \<Rightarrow> \<not> f event | None \<Rightarrow> False))\<close>
            rl allowed Rejected
          by simp
        show ?thesis unfolding eq by (rule stretch_suspend [OF c1])
      qed
    qed
  qed
qed

lemma call_clear_append_failed:
  "call_clear began k sent \<Longrightarrow> \<forall>d \<in> set new. \<not> d_ok d \<Longrightarrow> call_clear began k (sent @ new)"
  unfolding call_clear_def by auto

lemma call_clear_append_now:
  "call_clear began k sent \<Longrightarrow> began \<le> d_recorded entry \<Longrightarrow> call_clear began k (sent @ [entry])"
  unfolding call_clear_def by auto

text \<open>A stretch of the loop keeps the invariant.\<close>

lemma world_inv_stretch:
  assumes inv: "world_inv w" and now: "began \<le> clock w"
      and clear: "call_clear began k (dispatched w)"
      and eff: "stretch_effect k began w w'"
  shows "world_inv w'"
proof -
  from eff obtain new cs where
    a: "deduplicationCache (router w') = deduplicationCache (router w)" and
    b: "clock w \<le> clock w'" and
    l: "dispatched w' = dispatched w @ new" and
    d: "\<forall>d \<in> set new. \<not> d_ok d \<and> d_key d = k \<and> d_began d = began
            \<and> clock w \<le> d_time d \<and> d_time d \<le> d_recorded d \<and> d_recorded d \<le> clock w'" and
    s: "suspended w' = suspended w @ cs" and
    c: "\<forall>c \<in> set cs. c_key c = k \<and> c_began c = began
            \<and> clock w \<le> c_called c \<and> c_called c \<le> clock w'"
    unfolding stretch_effect_def by blast
  from inv have ci: "cache_inv w" and li: "log_inv w" and si: "calls_inv w" and pi: "pairs_inv w"
    by (simp_all add: world_inv_def)
  have failed: "\<forall>d \<in> set new. \<not> d_ok d" using d by blast
  have "cache_inv w'"
    unfolding cache_inv_def a l using ci b unfolding cache_inv_def by fastforce
  moreover have "log_inv w'"
    unfolding log_inv_def a l
  proof
    fix e assume "e \<in> set (dispatched w @ new)"
    then consider "e \<in> set (dispatched w)" | "e \<in> set new" by auto
    then show "d_began e \<le> d_time e \<and> d_time e \<le> d_recorded e \<and> d_recorded e \<le> clock w'
        \<and> (d_ok e \<longrightarrow> (\<exists>t. deduplicationCache (router w) (d_key e) = Some t \<and> d_recorded e \<le> t))"
    proof cases
      case 1
      then show ?thesis using li b unfolding log_inv_def by fastforce
    next
      case 2
      then show ?thesis using d now by fastforce
    qed
  qed
  moreover have "calls_inv w'"
    unfolding calls_inv_def s l
  proof
    fix x assume "x \<in> set (suspended w @ cs)"
    then consider "x \<in> set (suspended w)" | "x \<in> set cs" by auto
    then show "c_began x \<le> c_called x \<and> c_called x \<le> clock w'
        \<and> call_clear (c_began x) (c_key x) (dispatched w @ new)"
    proof cases
      case 1
      then have "c_began x \<le> c_called x" "c_called x \<le> clock w"
        "call_clear (c_began x) (c_key x) (dispatched w)"
        using si unfolding calls_inv_def by auto
      then show ?thesis using b call_clear_append_failed [OF _ failed] by auto
    next
      case 2
      then have "c_key x = k" "c_began x = began" "clock w \<le> c_called x" "c_called x \<le> clock w'"
        using c by auto
      then show ?thesis using now call_clear_append_failed [OF clear failed] by auto
    qed
  qed
  moreover have "pairs_inv w'"
    unfolding pairs_inv_def l
  proof
    fix e assume "e \<in> set (dispatched w @ new)"
    then consider "e \<in> set (dispatched w)" | "e \<in> set new" by auto
    then show "call_clear (d_began e) (d_key e) (dispatched w @ new)"
    proof cases
      case 1
      then have "call_clear (d_began e) (d_key e) (dispatched w)"
        using pi unfolding pairs_inv_def by auto
      then show ?thesis by (rule call_clear_append_failed [OF _ failed])
    next
      case 2
      then have "d_key e = k" "d_began e = began" using d by auto
      then show ?thesis using call_clear_append_failed [OF clear failed] by simp
    qed
  qed
  ultimately show ?thesis by (simp add: world_inv_def)
qed

lemma route_dropped:
  "deduplicationCache (router w) (getEventKey event) = Some t \<Longrightarrow> t \<noteq> 0 \<Longrightarrow>
   clock w - t < 300000 \<Longrightarrow> route w event = w"
  by (simp add: route_def Let_def)

lemma world_inv_route:
  assumes inv: "world_inv w"
  shows "world_inv (route w event)"
proof (cases "route w event = w")
  case True
  then show ?thesis using inv by simp
next
  case False
  let ?k = "getEventKey event"
  have eq: "route w event = route_from event ?k (clock w) 0 (routes (router w)) w"
    using False by (auto simp: route_def Let_def split: if_splits)
  from inv have ci: "cache_inv w" and li: "log_inv w" by (simp_all add: world_inv_def)
  have clear: "call_clear (clock w) ?k (dispatched w)"
    unfolding call_clear_def
  proof (intro ballI impI)
    fix d assume din: "d \<in> set (dispatched w)"
      and h: "d_ok d \<and> d_key d = ?k \<and> d_recorded d < clock w"
    obtain t where t: "deduplicationCache (router w) ?k = Some t" "d_recorded d \<le> t"
      using li din h unfolding log_inv_def by force
    have "0 < t" using ci t(1) unfolding cache_inv_def by blast
    then have "\<not> clock w - t < 300000"
      using route_dropped [OF t(1)] False by auto
    then show "d_recorded d + 300000 \<le> clock w" using t(2) by simp
  qed
  show ?thesis
    unfolding eq by (rule world_inv_stretch [OF inv _ clear route_from_effect]) simp
qed

text \<open>The world right after a suspended call has taken up the result it awaited.\<close>

lemma world_inv_taken_up:
  assumes inv: "world_inv w" and cin: "c \<in> set (suspended w)"
      and sub: "set others \<subseteq> set (suspended w)"
  shows "world_inv
           (w\<lparr>router := (if c_fulfils c
                         then (router w)\<lparr>deduplicationCache :=
                                (deduplicationCache (router w))(c_key c \<mapsto> clock w)\<rparr>
                         else router w),
              suspended := others,
              dispatched := dispatched w
                @ [\<lparr>d_route = c_route c, d_key = c_key c, d_began = c_began c,
                    d_time = c_called c, d_recorded = clock w, d_ok = c_fulfils c\<rparr>]\<rparr>)"
    (is "world_inv ?w2")
proof -
  let ?entry = "\<lparr>d_route = c_route c, d_key = c_key c, d_began = c_began c,
                  d_time = c_called c, d_recorded = clock w, d_ok = c_fulfils c\<rparr>"
  from inv have ci: "cache_inv w" and li: "log_inv w" and si: "calls_inv w" and pi: "pairs_inv w"
    by (simp_all add: world_inv_def)
  have cc: "c_began c \<le> c_called c" "c_called c \<le> clock w"
    "call_clear (c_began c) (c_key c) (dispatched w)"
    using si cin unfolding calls_inv_def by auto
  have cache2: "deduplicationCache (router ?w2)
                  = (if c_fulfils c then (deduplicationCache (router w))(c_key c \<mapsto> clock w)
                     else deduplicationCache (router w))"
    by simp
  have log2: "dispatched ?w2 = dispatched w @ [?entry]" by simp
  have clock2: "clock ?w2 = clock w" by simp
  have susp2: "suspended ?w2 = others" by simp
  have "cache_inv ?w2"
    unfolding cache_inv_def cache2 log2 clock2
  proof (intro conjI allI impI)
    show "0 < clock w" using ci unfolding cache_inv_def by simp
  next
    fix k t
    assume h: "(if c_fulfils c then (deduplicationCache (router w))(c_key c \<mapsto> clock w)
                else deduplicationCache (router w)) k = Some t"
    show "0 < t"
      using h ci unfolding cache_inv_def by (auto split: if_splits)
    show "t \<le> clock w"
      using h ci unfolding cache_inv_def by (auto split: if_splits)
    show "\<exists>d \<in> set (dispatched w @ [?entry]). d_ok d \<and> d_key d = k \<and> d_recorded d = t"
    proof (cases "c_fulfils c \<and> k = c_key c")
      case True
      then have "t = clock w" using h by simp
      then show ?thesis using True by simp
    next
      case False
      then have "deduplicationCache (router w) k = Some t"
        using h by (auto split: if_splits)
      then have "\<exists>d \<in> set (dispatched w). d_ok d \<and> d_key d = k \<and> d_recorded d = t"
        using ci unfolding cache_inv_def by blast
      then show ?thesis by auto
    qed
  qed
  moreover have "log_inv ?w2"
    unfolding log_inv_def cache2 log2 clock2
  proof
    fix e assume "e \<in> set (dispatched w @ [?entry])"
    then consider "e \<in> set (dispatched w)" | "e = ?entry" by auto
    then show "d_began e \<le> d_time e \<and> d_time e \<le> d_recorded e \<and> d_recorded e \<le> clock w
        \<and> (d_ok e \<longrightarrow>
             (\<exists>t. (if c_fulfils c then (deduplicationCache (router w))(c_key c \<mapsto> clock w)
                   else deduplicationCache (router w)) (d_key e) = Some t
                  \<and> d_recorded e \<le> t))"
    proof cases
      case 1
      then have old: "d_began e \<le> d_time e" "d_time e \<le> d_recorded e" "d_recorded e \<le> clock w"
        "d_ok e \<longrightarrow> (\<exists>t. deduplicationCache (router w) (d_key e) = Some t \<and> d_recorded e \<le> t)"
        using li unfolding log_inv_def by auto
      then show ?thesis by auto
    next
      case 2
      then show ?thesis using cc by simp
    qed
  qed
  moreover have "calls_inv ?w2"
    unfolding calls_inv_def susp2 log2 clock2
  proof
    fix x assume "x \<in> set others"
    then have "x \<in> set (suspended w)" using sub by auto
    then have x: "c_began x \<le> c_called x" "c_called x \<le> clock w"
      "call_clear (c_began x) (c_key x) (dispatched w)"
      using si unfolding calls_inv_def by auto
    have "call_clear (c_began x) (c_key x) (dispatched w @ [?entry])"
      by (rule call_clear_append_now [OF x(3)]) (use x in simp)
    then show "c_began x \<le> c_called x \<and> c_called x \<le> clock w
        \<and> call_clear (c_began x) (c_key x) (dispatched w @ [?entry])"
      using x by simp
  qed
  moreover have "pairs_inv ?w2"
    unfolding pairs_inv_def log2
  proof
    fix e assume "e \<in> set (dispatched w @ [?entry])"
    then consider "e \<in> set (dispatched w)" | "e = ?entry" by auto
    then show "call_clear (d_began e) (d_key e) (dispatched w @ [?entry])"
    proof cases
      case 1
      then have "call_clear (d_began e) (d_key e) (dispatched w)"
        using pi unfolding pairs_inv_def by auto
      moreover have "d_began e \<le> clock w"
        using li 1 unfolding log_inv_def by fastforce
      ultimately show ?thesis by (intro call_clear_append_now) simp_all
    next
      case 2
      have "call_clear (c_began c) (c_key c) (dispatched w @ [?entry])"
        by (rule call_clear_append_now [OF cc(3)]) (use cc in simp)
      then show ?thesis using 2 by simp
    qed
  qed
  ultimately show ?thesis by (simp only: world_inv_def simp_thms)
qed

lemma resume_unfold:
  assumes "n < length (suspended w)"
  shows "resume w n
     = route_from (c_event (suspended w ! n)) (c_key (suspended w ! n))
         (c_began (suspended w ! n)) (c_route (suspended w ! n) + 1) (c_rest (suspended w ! n))
         (w\<lparr>router := (if c_fulfils (suspended w ! n)
                        then (router w)\<lparr>deduplicationCache :=
                               (deduplicationCache (router w))
                                 (c_key (suspended w ! n) \<mapsto> clock w)\<rparr>
                        else router w),
            suspended := take n (suspended w) @ drop (Suc n) (suspended w),
            dispatched := dispatched w
              @ [\<lparr>d_route = c_route (suspended w ! n), d_key = c_key (suspended w ! n),
                  d_began = c_began (suspended w ! n), d_time = c_called (suspended w ! n),
                  d_recorded = clock w, d_ok = c_fulfils (suspended w ! n)\<rparr>]\<rparr>)"
  using assms by (simp add: resume_def Let_def)

lemma world_inv_resume:
  assumes inv: "world_inv w"
  shows "world_inv (resume w n)"
proof (cases "n < length (suspended w)")
  case False
  then show ?thesis using inv by (simp add: resume_def)
next
  case True
  let ?c = "suspended w ! n"
  let ?others = "take n (suspended w) @ drop (Suc n) (suspended w)"
  let ?entry = "\<lparr>d_route = c_route ?c, d_key = c_key ?c, d_began = c_began ?c,
                  d_time = c_called ?c, d_recorded = clock w, d_ok = c_fulfils ?c\<rparr>"
  let ?w2 = "w\<lparr>router := (if c_fulfils ?c
                        then (router w)\<lparr>deduplicationCache :=
                               (deduplicationCache (router w))(c_key ?c \<mapsto> clock w)\<rparr>
                        else router w),
              suspended := ?others,
              dispatched := dispatched w @ [?entry]\<rparr>"
  have cin: "?c \<in> set (suspended w)" using True by simp
  have sub: "set ?others \<subseteq> set (suspended w)"
    using set_take_subset [of n "suspended w"] set_drop_subset [of "Suc n" "suspended w"]
    by auto
  have inv2: "world_inv ?w2" by (rule world_inv_taken_up [OF inv cin sub])
  from inv have si: "calls_inv w" by (simp add: world_inv_def)
  have cc: "c_began ?c \<le> clock w" "call_clear (c_began ?c) (c_key ?c) (dispatched w)"
    using si cin unfolding calls_inv_def by fastforce+
  have now2: "c_began ?c \<le> clock ?w2" using cc(1) by simp
  have "call_clear (c_began ?c) (c_key ?c) (dispatched w @ [?entry])"
    by (rule call_clear_append_now [OF cc(2)]) (use cc(1) in simp)
  then have clear2: "call_clear (c_began ?c) (c_key ?c) (dispatched ?w2)" by simp
  show ?thesis
    unfolding resume_unfold [OF True]
    by (rule world_inv_stretch [OF inv2 now2 clear2 route_from_effect])
qed

lemma world_inv_step: "world_inv w \<Longrightarrow> world_inv (router_step w op)"
proof (cases op)
  case (Route event)
  assume "world_inv w"
  then show ?thesis using Route by (simp add: world_inv_route)
next
  case (Resume n)
  assume "world_inv w"
  then show ?thesis using Resume by (simp add: world_inv_resume)
next
  case (Elapse ms)
  assume inv: "world_inv w"
  have "cache_inv (w\<lparr>clock := clock w + int ms\<rparr>)"
    using inv unfolding world_inv_def cache_inv_def by fastforce
  moreover have "log_inv (w\<lparr>clock := clock w + int ms\<rparr>)"
    using inv unfolding world_inv_def log_inv_def by fastforce
  moreover have "calls_inv (w\<lparr>clock := clock w + int ms\<rparr>)"
    using inv unfolding world_inv_def calls_inv_def by fastforce
  moreover have "pairs_inv (w\<lparr>clock := clock w + int ms\<rparr>)"
    using inv unfolding world_inv_def pairs_inv_def by simp
  ultimately show ?thesis using Elapse by (simp add: world_inv_def)
qed

lemma world_inv_run: "world_inv w \<Longrightarrow> world_inv (router_run w ops)"
  unfolding router_run_def by (induction ops arbitrary: w) (simp_all add: world_inv_step)

lemma world_inv_fresh: "fresh_world w \<Longrightarrow> world_inv w"
  by (simp add: fresh_world_def world_inv_def cache_inv_def log_inv_def calls_inv_def
      pairs_inv_def)



lemma world_inv_cache_mirrors_log: "world_inv w \<Longrightarrow> cache_mirrors_log w"
proof -
  assume inv: "world_inv w"
  then have ci: "cache_inv w" and li: "log_inv w" by (simp_all add: world_inv_def)
  have "dom (deduplicationCache (router w)) = d_key ` {d \<in> set (dispatched w). d_ok d}"
  proof (intro set_eqI iffI)
    fix k assume "k \<in> dom (deduplicationCache (router w))"
    then obtain t where "deduplicationCache (router w) k = Some t" by auto
    then obtain d where "d \<in> set (dispatched w)" "d_ok d" "d_key d = k"
      using ci unfolding cache_inv_def by blast
    then show "k \<in> d_key ` {d \<in> set (dispatched w). d_ok d}" by auto
  next
    fix k assume "k \<in> d_key ` {d \<in> set (dispatched w). d_ok d}"
    then obtain d where "d \<in> set (dispatched w)" "d_ok d" "d_key d = k" by auto
    then show "k \<in> dom (deduplicationCache (router w))"
      using li unfolding log_inv_def by force
  qed
  moreover have "\<exists>t. deduplicationCache (router w) (d_key d) = Some t \<and> d_recorded d \<le> t
                 \<and> (\<exists>latest \<in> set (dispatched w).
                       d_ok latest \<and> d_key latest = d_key d \<and> d_recorded latest = t)"
    if din: "d \<in> set (dispatched w)" and dok: "d_ok d" for d
  proof -
    obtain t where t: "deduplicationCache (router w) (d_key d) = Some t" "d_recorded d \<le> t"
      using li din dok unfolding log_inv_def by force
    then have "\<exists>latest \<in> set (dispatched w).
                  d_ok latest \<and> d_key latest = d_key d \<and> d_recorded latest = t"
      using ci unfolding cache_inv_def by blast
    with t show ?thesis by blast
  qed
  ultimately show ?thesis unfolding cache_mirrors_log_def by blast
qed

lemma key_sample_event:
  "getEventKey (sample_event ''a.js'') = ''MEMORY_LEAK:a.js:7''"
  "getEventKey (sample_event ''b.js'') = ''MEMORY_LEAK:b.js:7''"
  by (simp_all add: getEventKey_def sample_event_def dec.simps digit_char_def)



lemma fresh_one_route_world: "fresh_world one_route_world"
  by (simp add: fresh_world_def one_route_world_def addRoute_def new_AlertRouter_def)

lemmas router_eval =
  router_run_def route_def resume_def Let_def one_route_world_def addRoute_def
  new_AlertRouter_def instant_handler_def key_sample_event



lemma cache_route:
  "deduplicationCache (router (route w event)) = deduplicationCache (router w)"
proof (cases "route w event = w")
  case True
  then show ?thesis by simp
next
  case False
  then have "route w event
               = route_from event (getEventKey event) (clock w) 0 (routes (router w)) w"
    by (auto simp: route_def Let_def split: if_splits)
  then show ?thesis
    using route_from_effect [of "getEventKey event" "clock w" w event 0 "routes (router w)"]
    by (simp add: stretch_effect_def)
qed

lemma cache_resume:
  "deduplicationCache (router (resume w n))
     = (if n < length (suspended w) \<and> c_fulfils (suspended w ! n)
        then (deduplicationCache (router w))(c_key (suspended w ! n) \<mapsto> clock w)
        else deduplicationCache (router w))"
proof (cases "n < length (suspended w)")
  case False
  then show ?thesis by (simp add: resume_def)
next
  case True
  show ?thesis
    unfolding resume_unfold [OF True]
    using route_from_effect
    by (simp add: stretch_effect_def True)
qed

lemma log_resume:
  assumes "n < length (suspended w)"
  shows "\<lparr>d_route = c_route (suspended w ! n), d_key = c_key (suspended w ! n),
          d_began = c_began (suspended w ! n), d_time = c_called (suspended w ! n),
          d_recorded = clock w, d_ok = c_fulfils (suspended w ! n)\<rparr>
           \<in> set (dispatched (resume w n))"
proof -
  let ?c = "suspended w ! n"
  let ?w2 = "w\<lparr>router := (if c_fulfils ?c
                        then (router w)\<lparr>deduplicationCache :=
                               (deduplicationCache (router w))(c_key ?c \<mapsto> clock w)\<rparr>
                        else router w),
              suspended := take n (suspended w) @ drop (Suc n) (suspended w),
              dispatched := dispatched w
                @ [\<lparr>d_route = c_route ?c, d_key = c_key ?c, d_began = c_began ?c,
                    d_time = c_called ?c, d_recorded = clock w, d_ok = c_fulfils ?c\<rparr>]\<rparr>"
  have "stretch_effect (c_key ?c) (c_began ?c) ?w2 (resume w n)"
    unfolding resume_unfold [OF assms] by (rule route_from_effect)
  then obtain new where "dispatched (resume w n) = dispatched ?w2 @ new"
    unfolding stretch_effect_def by blast
  then show ?thesis by simp
qed

lemma cache_kept_step:
  "deduplicationCache (router w) k \<noteq> None \<Longrightarrow>
   deduplicationCache (router (router_step w op)) k \<noteq> None"
  by (cases op) (simp_all add: cache_route cache_resume)

lemma cache_kept_run:
  "deduplicationCache (router w) k \<noteq> None \<Longrightarrow>
   deduplicationCache (router (router_run w ops)) k \<noteq> None"
proof (induction ops arbitrary: w)
  case Nil
  then show ?case by (simp add: router_run_def)
next
  case (Cons op ops)
  have "deduplicationCache (router (router_step w op)) k \<noteq> None"
    using Cons.prems by (rule cache_kept_step)
  then have "deduplicationCache (router (router_run (router_step w op) ops)) k \<noteq> None"
    by (rule Cons.IH)
  then show ?case by (simp add: router_run_def)
qed

lemma cache_written_by_resume:
  assumes "deduplicationCache (router (resume w n)) k \<noteq> deduplicationCache (router w) k"
  shows "n < length (suspended w) \<and> c_fulfils (suspended w ! n) \<and> c_key (suspended w ! n) = k
         \<and> deduplicationCache (router (resume w n)) k = Some (clock w)
         \<and> (\<exists>d \<in> set (dispatched (resume w n)).
               d_ok d \<and> d_key d = k \<and> d_recorded d = clock w)"
proof -
  have a: "n < length (suspended w)" "c_fulfils (suspended w ! n)" "c_key (suspended w ! n) = k"
    using assms unfolding cache_resume by (auto split: if_splits)
  then have b: "deduplicationCache (router (resume w n)) k = Some (clock w)"
    unfolding cache_resume by simp
  have "\<exists>d \<in> set (dispatched (resume w n)). d_ok d \<and> d_key d = k \<and> d_recorded d = clock w"
    using log_resume [OF a(1)] a(2,3) by (intro bexI) simp_all
  with a b show ?thesis by blast
qed

text \<open>
  Claim C7, amended: nothing removes an entry of the dedup cache. An entry older than
  five minutes is only ignored by the test at the head of \<open>route\<close>; every key in the cache
  stays there over any run. The part of \<open>route\<close> that runs up to the first \<open>await\<close> does
  not write the cache at all; the cache changes only when a suspended call goes on after
  a handler that succeeded, and then only the entry of that call's key changes, to the
  current time, together with a successful dispatch for that key in the log. So, in
  every world that a run reaches from a fresh start, the keys of the cache are exactly
  the keys of the successful dispatches made so far, each with the time of the latest
  recording for that key.
\<close>

theorem route_never_removes_cache_entries:
  "(deduplicationCache (router w) k \<noteq> None \<longrightarrow>
      deduplicationCache (router (router_run w ops)) k \<noteq> None)
   \<and> deduplicationCache (router (route w event)) = deduplicationCache (router w)
   \<and> (deduplicationCache (router (resume w n)) k \<noteq> deduplicationCache (router w) k \<longrightarrow>
        n < length (suspended w) \<and> c_fulfils (suspended w ! n) \<and> c_key (suspended w ! n) = k
        \<and> deduplicationCache (router (resume w n)) k = Some (clock w)
        \<and> (\<exists>d \<in> set (dispatched (resume w n)).
              d_ok d \<and> d_key d = k \<and> d_recorded d = clock w))
   \<and> (fresh_world w \<longrightarrow> cache_mirrors_log (router_run w ops))"
proof -
  have "cache_mirrors_log (router_run w ops)" if "fresh_world w"
    by (rule world_inv_cache_mirrors_log [OF world_inv_run [OF world_inv_fresh [OF that]]])
  then show ?thesis
    using cache_kept_run cache_route cache_written_by_resume by blast
qed

text \<open>
  Claim C7, as the specification states it, fails: ten minutes after a dispatch, and
  after a further call of \<open>route\<close> for another key has run to its end, the entry of the
  first key is still in the cache, with the time 1000 while the clock shows 601000.
\<close>

theorem dedup_cache_keeps_old_entry:
  "deduplicationCache (router (router_run one_route_world
       [Route (sample_event ''a.js''), Resume 0, Elapse 600000,
        Route (sample_event ''b.js''), Resume 0]))
     ''MEMORY_LEAK:a.js:7'' = Some 1000
   \<and> clock (router_run one_route_world
       [Route (sample_event ''a.js''), Resume 0, Elapse 600000,
        Route (sample_event ''b.js''), Resume 0]) = 601000
   \<and> suspended (router_run one_route_world
       [Route (sample_event ''a.js''), Resume 0, Elapse 600000,
        Route (sample_event ''b.js''), Resume 0]) = []"
  by (simp add: router_eval)

theorem route_never_removes_cache_entries_witness:
  "deduplicationCache (router (router_run one_route_world
        [Route (sample_event ''a.js''), Resume 0])) ''MEMORY_LEAK:a.js:7'' = Some 1000
   \<and> deduplicationCache (router (router_run
        (router_run one_route_world [Route (sample_event ''a.js''), Resume 0])
        [Elapse 600000, Route (sample_event ''b.js''), Resume 0]))
       ''MEMORY_LEAK:a.js:7'' \<noteq> None
   \<and> deduplicationCache (router (route one_route_world (sample_event ''a.js'')))
        ''MEMORY_LEAK:a.js:7'' = None
   \<and> c_fulfils (suspended (route one_route_world (sample_event ''a.js'')) ! 0)
   \<and> deduplicationCache (router (resume (route one_route_world (sample_event ''a.js'')) 0))
        ''MEMORY_LEAK:a.js:7'' = Some 1000
   \<and> fresh_world one_route_world
   \<and> dom (deduplicationCache (router (router_run one_route_world
        [Route (sample_event ''a.js''), Resume 0, Elapse 600000,
         Route (sample_event ''b.js''), Resume 0])))
       = {''MEMORY_LEAK:a.js:7'', ''MEMORY_LEAK:b.js:7''}"
proof -
  let ?ka = "''MEMORY_LEAK:a.js:7''"
  let ?w1 = "router_run one_route_world [Route (sample_event ''a.js''), Resume 0]"
  let ?w0 = "route one_route_world (sample_event ''a.js'')"
  let ?ops = "[Route (sample_event ''a.js''), Resume 0, Elapse 600000,
         Route (sample_event ''b.js''), Resume 0]"
  have v: "deduplicationCache (router ?w1) ?ka = Some 1000"
    by (simp add: router_eval)
  then have h: "deduplicationCache (router ?w1) ?ka \<noteq> None" by simp
  have kept: "deduplicationCache (router (router_run ?w1
                 [Elapse 600000, Route (sample_event ''b.js''), Resume 0])) ?ka \<noteq> None"
    using route_never_removes_cache_entries
            [where w = ?w1 and k = ?ka
               and ops = "[Elapse 600000, Route (sample_event ''b.js''), Resume 0]"] h
    by blast
  have before: "deduplicationCache (router ?w0) ?ka = None"
    using route_never_removes_cache_entries
            [where w = one_route_world and event = "sample_event ''a.js''"]
    by (simp add: one_route_world_def addRoute_def new_AlertRouter_def)
  have after: "deduplicationCache (router (resume ?w0 0)) ?ka = Some 1000"
    by (simp add: router_eval)
  have changed: "deduplicationCache (router (resume ?w0 0)) ?ka
                   \<noteq> deduplicationCache (router ?w0) ?ka"
    unfolding before after by simp
  have ok: "c_fulfils (suspended ?w0 ! 0)"
    using route_never_removes_cache_entries [where w = ?w0 and n = 0 and k = ?ka] changed
    by blast
  note fresh = fresh_one_route_world
  have mirror: "cache_mirrors_log (router_run one_route_world ?ops)"
    using route_never_removes_cache_entries [where w = one_route_world and ops = ?ops] fresh
    by blast
  have log: "dispatched (router_run one_route_world ?ops)
      = [\<lparr>d_route = 0, d_key = ''MEMORY_LEAK:a.js:7'', d_began = 1000, d_time = 1000,
          d_recorded = 1000, d_ok = True\<rparr>,
         \<lparr>d_route = 0, d_key = ''MEMORY_LEAK:b.js:7'', d_began = 601000, d_time = 601000,
          d_recorded = 601000, d_ok = True\<rparr>]"
    by (simp add: router_eval)
  have "dom (deduplicationCache (router (router_run one_route_world ?ops)))
          = d_key ` {d \<in> set (dispatched (router_run one_route_world ?ops)). d_ok d}"
    using mirror unfolding cache_mirrors_log_def by blast
  also have "\<dots> = d_key ` {\<lparr>d_route = 0, d_key = ''MEMORY_LEAK:a.js:7'', d_began = 1000,
                              d_time = 1000, d_recorded = 1000, d_ok = True\<rparr>,
                            \<lparr>d_route = 0, d_key = ''MEMORY_LEAK:b.js:7'', d_began = 601000,
                              d_time = 601000, d_recorded = 601000, d_ok = True\<rparr>}"
    unfolding log by (rule arg_cong [where f = "(`) d_key"]) auto
  also have "\<dots> = {''MEMORY_LEAK:a.js:7'', ''MEMORY_LEAK:b.js:7''}"
    by simp
  finally have keys: "dom (deduplicationCache (router (router_run one_route_world ?ops)))
          = {''MEMORY_LEAK:a.js:7'', ''MEMORY_LEAK:b.js:7''}" .
  show ?thesis using v kept before ok after fresh keys by blast
qed

section \<open>Properties of the promise tracker and of the detector\<close>



lemma parse_user_stack: "tracker_parseStack user_stack = Some (''/app/server.js'', 10)"
  by (simp add: tracker_parseStack_def user_stack_def match_after_paren_def Let_def is_digit_def
      parseInt_def digit_val_def)

lemma user_file_not_internal: "\<not> isGuardianInternal (Some ''/app/server.js'')"
  by (simp add: isGuardianInternal_def)

lemma set_jsmap_set: "set (jsmap_set m k v) \<subseteq> insert (k, v) (set m)"
  by (induction m) auto

lemma set_jsmap_delete: "set (jsmap_delete m k) \<subseteq> set m"
  by (auto simp: jsmap_delete_def)

lemma set_foldl_jsmap_delete: "set (foldl jsmap_delete m ks) \<subseteq> set m"
proof (induction ks arbitrary: m)
  case Nil
  show ?case by simp
next
  case (Cons k ks)
  have "set (foldl jsmap_delete (jsmap_delete m k) ks) \<subseteq> set (jsmap_delete m k)"
    by (rule Cons.IH)
  then show ?case using set_jsmap_delete [of m k] by auto
qed

lemma jsmap_get_in_set: "jsmap_get m k = Some v \<Longrightarrow> (k, v) \<in> set m"
  by (induction m) (auto split: if_splits)

lemma tracker_clean_cleanup: "tracker_clean t \<Longrightarrow> tracker_clean (cleanupOldPromises t)"
  unfolding tracker_clean_def cleanupOldPromises_def Let_def
  using set_foldl_jsmap_delete by fastforce

lemma tracker_clean_onInit: "tracker_clean t \<Longrightarrow> tracker_clean (onInit t aid ty trigger stack now)"
proof -
  assume c: "tracker_clean t"
  let ?file = "map_option fst (tracker_parseStack stack)"
  show ?thesis
  proof (cases "ty \<noteq> ''PROMISE'' \<or> isGuardianInternal ?file")
    case True
    then show ?thesis using c by (auto simp: onInit_def Let_def)
  next
    case False
    let ?t1 = "if length (promises t) \<ge> maxTrackedPromises (config t)
               then cleanupOldPromises t else t"
    let ?p = "\<lparr>asyncId = aid, p_type = ty, triggerAsyncId = trigger,
               createdAt = now, p_stack = stack, p_status = Pending,
               p_file = ?file, p_line = map_option snd (tracker_parseStack stack)\<rparr>"
    have c1: "tracker_clean ?t1" using c tracker_clean_cleanup by simp
    have eq: "promises (onInit t aid ty trigger stack now) = jsmap_set (promises ?t1) aid ?p"
      using False by (simp add: onInit_def Let_def)
    show ?thesis
      unfolding tracker_clean_def eq
      using c1 False set_jsmap_set [of "promises ?t1" aid ?p]
      by (auto simp: tracker_clean_def)
  qed
qed

lemma tracker_clean_onDestroy: "tracker_clean t \<Longrightarrow> tracker_clean (onDestroy t aid)"
proof (cases "jsmap_get (promises t) aid")
  case None
  then show "tracker_clean t \<Longrightarrow> ?thesis" by (simp add: onDestroy_def)
next
  case (Some p)
  assume c: "tracker_clean t"
  have "\<not> isGuardianInternal (p_file p)"
    using c jsmap_get_in_set [OF Some] by (auto simp: tracker_clean_def)
  then show ?thesis
    using c Some set_jsmap_set [of "promises t" aid "p\<lparr>p_status := Resolved\<rparr>"]
    by (auto simp: onDestroy_def tracker_clean_def)
qed

lemma tracker_clean_mark_deadlocks:
  "tracker_clean t \<Longrightarrow> tracker_clean (mark_deadlocks now ps t)"
proof (induction ps arbitrary: t)
  case Nil
  then show ?case by simp
next
  case (Cons p ps)
  show ?case
  proof (cases "jsmap_get (promises t) (asyncId p)")
    case None
    have "tracker_clean (t\<lparr>deadlockCount := deadlockCount t + 1\<rparr>)"
      using Cons.prems by (simp add: tracker_clean_def)
    then show ?thesis using None Cons.IH Cons.prems by simp
  next
    case (Some q)
    have "\<not> isGuardianInternal (p_file q)"
      using Cons.prems jsmap_get_in_set [OF Some] by (auto simp: tracker_clean_def)
    then have "tracker_clean (t\<lparr>deadlockCount := deadlockCount t + 1,
                          promises := jsmap_set (promises t) (asyncId p)
                                        (q\<lparr>p_status := Rejected\<rparr>)\<rparr>)"
      using Cons.prems set_jsmap_set [of "promises t" "asyncId p" "q\<lparr>p_status := Rejected\<rparr>"]
      by (auto simp: tracker_clean_def)
    then show ?thesis using Some Cons.IH Cons.prems by simp
  qed
qed

lemma tracker_clean_step: "tracker_clean t \<Longrightarrow> tracker_clean (tracker_step t op)"
proof (cases op)
  case (Expire aid)
  assume "tracker_clean t"
  then show ?thesis
    using Expire set_jsmap_delete [of "promises t" aid] by (auto simp: expire_def tracker_clean_def)
qed (simp_all add: tracker_clean_onInit tracker_clean_onDestroy checkForDeadlocks_def
       tracker_clean_mark_deadlocks, simp add: tracker_stop_def tracker_clean_def)

lemma tracker_clean_run: "tracker_clean t \<Longrightarrow> tracker_clean (tracker_run t ops)"
  unfolding tracker_run_def by (induction ops arbitrary: t) (simp_all add: tracker_clean_step)

lemma detector_clean_mark_awaited: "detector_clean d \<Longrightarrow> detector_clean (mark_awaited d pid)"
proof (cases "jsmap_get (trackedPromises d) pid")
  case None
  then show "detector_clean d \<Longrightarrow> ?thesis" by (simp add: mark_awaited_def)
next
  case (Some tracked)
  assume c: "detector_clean d"
  have "\<not> isGuardianInternal (tp_file tracked)"
    using c jsmap_get_in_set [OF Some] by (auto simp: detector_clean_def)
  then show ?thesis
    using c Some set_jsmap_set [of "trackedPromises d" pid "tracked\<lparr>isAwaited := True\<rparr>"]
    by (auto simp: mark_awaited_def detector_clean_def)
qed

lemma detector_clean_GuardianPromise:
  "detector_clean d \<Longrightarrow> detector_clean (GuardianPromise d stack now)"
proof -
  assume c: "detector_clean d"
  let ?file = "map_option fst (detector_parseStack stack)"
  show ?thesis
  proof (cases "isGuardianInternal ?file")
    case True
    then show ?thesis using c by (simp add: GuardianPromise_def Let_def)
  next
    case False
    let ?pid = "promiseCounter d + 1"
    let ?e = "\<lparr>tp_id = ?pid, tp_stack = stack, tp_createdAt = now,
               tp_file = ?file, tp_line = map_option snd (detector_parseStack stack),
               isAwaited = False\<rparr>"
    let ?d1 = "d\<lparr>promiseCounter := ?pid,
                 trackedPromises := jsmap_set (trackedPromises d) ?pid ?e\<rparr>"
    have "detector_clean ?d1"
      using c False set_jsmap_set [of "trackedPromises d" ?pid ?e]
      by (auto simp: detector_clean_def)
    then have "detector_clean (mark_awaited ?d1 ?pid)" by (rule detector_clean_mark_awaited)
    then show ?thesis using False by (simp add: GuardianPromise_def Let_def)
  qed
qed

lemma detector_clean_forget_reported:
  "detector_clean d \<Longrightarrow> detector_clean (forget_reported now es d)"
proof (induction es arbitrary: d)
  case Nil
  then show ?case by simp
next
  case (Cons entry rest)
  have "detector_clean (d\<lparr>trackedPromises := jsmap_delete (trackedPromises d) (fst entry)\<rparr>)"
    using Cons.prems set_jsmap_delete [of "trackedPromises d" "fst entry"]
    by (auto simp: detector_clean_def)
  then show ?case using Cons.IH Cons.prems by simp
qed

lemma detector_clean_step: "detector_clean d \<Longrightarrow> detector_clean (detector_step d op)"
proof (cases op)
  case (CleanupFired pid)
  assume "detector_clean d"
  then show ?thesis
    using CleanupFired set_jsmap_delete [of "trackedPromises d" pid]
    by (auto simp: cleanup_fired_def detector_clean_def)
qed (simp_all add: detector_clean_GuardianPromise detector_clean_mark_awaited
       checkUnawaitedPromises_def detector_clean_forget_reported,
     simp add: detector_stop_def detector_clean_def)

lemma detector_clean_run: "detector_clean d \<Longrightarrow> detector_clean (detector_run d ops)"
  unfolding detector_run_def by (induction ops arbitrary: d) (simp_all add: detector_clean_step)

text \<open>
  What the guard of \<open>onInit\<close> and of the patched constructor does achieve: a task for which
  \<open>parseStack\<close> finds a file that matches one of the monitor's own path fragments or
  component names is not stored, and so no entry of either collection ever has such a
  file.
\<close>

lemma parsed_monitor_file_is_not_stored:
  "(isGuardianInternal (map_option fst (tracker_parseStack stack)) \<longrightarrow>
      onInit t aid ty trigger stack now = t)
   \<and> (isGuardianInternal (map_option fst (detector_parseStack stack)) \<longrightarrow>
        GuardianPromise d stack now = d)
   \<and> tracker_clean (tracker_run (new_PromiseTracker cfg) ops)
   \<and> detector_clean (detector_run (new_Detector threshold) dops)"
proof -
  have "tracker_clean (new_PromiseTracker cfg)"
    by (simp add: tracker_clean_def new_PromiseTracker_def)
  then have 1: "tracker_clean (tracker_run (new_PromiseTracker cfg) ops)"
    by (rule tracker_clean_run)
  have "detector_clean (new_Detector threshold)"
    by (simp add: detector_clean_def new_Detector_def)
  then have 2: "detector_clean (detector_run (new_Detector threshold) dops)"
    by (rule detector_clean_run)
  show ?thesis
    using 1 2 by (auto simp: onInit_def GuardianPromise_def Let_def)
qed

lemma parse_monitor_timer_stack: "tracker_parseStack monitor_timer_stack = None"
  by (simp add: tracker_parseStack_def monitor_timer_stack_def memory_monitor_file_def
      match_after_paren_def Let_def is_digit_def parseInt_def digit_val_def)

lemma parse_monitor_continuation_stack:
  "tracker_parseStack monitor_continuation_stack = Some (''/app/server.js'', 10)"
  by (simp add: tracker_parseStack_def monitor_continuation_stack_def detector_file_def
      match_after_paren_def Let_def is_digit_def parseInt_def digit_val_def)

lemma parse_monitor_constructor_stack: "detector_parseStack monitor_constructor_stack = None"
  by (simp add: detector_parseStack_def monitor_constructor_stack_def detector_file_def
      memory_monitor_file_def match_after_paren_def Let_def is_digit_def parseInt_def
      digit_val_def)

lemma monitor_files_internal:
  "isGuardianInternal (Some memory_monitor_file)"
  "isGuardianInternal (Some detector_file)"
  by (simp_all add: isGuardianInternal_def memory_monitor_file_def detector_file_def)

text \<open>
  Claim C6 says that a task whose originating file lies within the monitor's own
  implementation is never inserted into the tracker's map. The code tests the file that
  \<open>parseStack\<close> returns, and \<open>parseStack\<close> skips every frame whose file contains
  \<open>node_modules\<close>. With the package installed under \<open>node_modules\<close>, the frames of the
  monitor are therefore never the parsed file. A promise created in the memory monitor
  (a file that matches \<open>/dist/core/\<close> and \<open>memoryMonitor\<close>) during a timer callback has no
  parsed file at all, the test \<open>file && \<dots>\<close> is false, and \<open>onInit\<close> stores the promise as
  pending. The promise that the detector creates by \<open>promise.then(\<dots>)\<close> (in a file that
  matches \<open>/dist/instrumentation/\<close> and \<open>unawaitedPromiseDetector\<close>) is given the file
  of the user code that called \<open>new Promise\<close>, and \<open>onInit\<close> stores it too.
\<close>

theorem onInit_stores_monitor_tasks_under_node_modules:
  "isGuardianInternal (Some memory_monitor_file)
   \<and> str_includes monitor_timer_stack memory_monitor_file
   \<and> tracker_parseStack monitor_timer_stack = None
   \<and> map (\<lambda>entry. (fst entry, p_file (snd entry), p_status (snd entry)))
         (promises (onInit (new_PromiseTracker small_config) 1 ''PROMISE'' 0
                      monitor_timer_stack 1000))
       = [(1, None, Pending)]
   \<and> isGuardianInternal (Some detector_file)
   \<and> tracker_parseStack monitor_continuation_stack = Some (''/app/server.js'', 10)
   \<and> map (\<lambda>entry. (fst entry, p_file (snd entry), p_status (snd entry)))
         (promises (onInit (new_PromiseTracker small_config) 1 ''PROMISE'' 0
                      monitor_continuation_stack 1000))
       = [(1, Some ''/app/server.js'', Pending)]"
proof -
  have inc: "str_includes monitor_timer_stack memory_monitor_file"
    by (simp add: monitor_timer_stack_def memory_monitor_file_def)
  have a: "map (\<lambda>entry. (fst entry, p_file (snd entry), p_status (snd entry)))
         (promises (onInit (new_PromiseTracker small_config) 1 ''PROMISE'' 0
                      monitor_timer_stack 1000))
       = [(1, None, Pending)]"
    by (simp add: onInit_def Let_def parse_monitor_timer_stack isGuardianInternal_def
        new_PromiseTracker_def small_config_def)
  have b: "map (\<lambda>entry. (fst entry, p_file (snd entry), p_status (snd entry)))
         (promises (onInit (new_PromiseTracker small_config) 1 ''PROMISE'' 0
                      monitor_continuation_stack 1000))
       = [(1, Some ''/app/server.js'', Pending)]"
    by (simp add: onInit_def Let_def parse_monitor_continuation_stack user_file_not_internal
        new_PromiseTracker_def small_config_def)
  show ?thesis
    using inc a b parse_monitor_timer_stack parse_monitor_continuation_stack
      monitor_files_internal
    by blast
qed

text \<open>
  The patched constructor has the same gap: called from the memory monitor during a
  timer callback, it finds no file and keeps the promise in its tracked set.
\<close>

lemma constructor_stores_monitor_promise_under_node_modules:
  "map (\<lambda>entry. (fst entry, tp_file (snd entry)))
     (trackedPromises (GuardianPromise (new_Detector 5000) monitor_constructor_stack 1000))
     = [(1, None)]"
  by (simp add: GuardianPromise_def Let_def parse_monitor_constructor_stack
      isGuardianInternal_def new_Detector_def mark_awaited_def)

lemma floor_index_fifth: "floor_index n 0.2 = n div 5"
proof -
  have "real n * 0.2 = real n / real 5" by simp
  then show ?thesis
    unfolding floor_index_def by (simp only: floor_divide_of_nat_eq nat_int)
qed

lemma set_foldl_jsmap_delete_eq:
  "set (foldl jsmap_delete m ks) = {entry \<in> set m. fst entry \<notin> set ks}"
proof (induction ks arbitrary: m)
  case Nil
  show ?case by simp
next
  case (Cons k ks)
  have "set (foldl jsmap_delete m (k # ks)) = set (foldl jsmap_delete (jsmap_delete m k) ks)"
    by simp
  also have "\<dots> = {entry \<in> set (jsmap_delete m k). fst entry \<notin> set ks}"
    by (rule Cons.IH)
  also have "\<dots> = {entry \<in> set m. fst entry \<notin> set (k # ks)}"
    by (auto simp: jsmap_delete_def)
  finally show ?case .
qed

lemma keys_jsmap_delete: "map fst (jsmap_delete m k) = filter (\<lambda>x. x \<noteq> k) (map fst m)"
  by (simp add: jsmap_delete_def filter_map o_def)

lemma length_jsmap_delete:
  "distinct (map fst m) \<Longrightarrow> k \<in> set (map fst m) \<Longrightarrow> length (jsmap_delete m k) = length m - 1"
proof -
  assume d: "distinct (map fst m)" and k: "k \<in> set (map fst m)"
  have "length (jsmap_delete m k) = length (filter (\<lambda>x. x \<noteq> k) (map fst m))"
    using keys_jsmap_delete [of m k] by (metis length_map)
  also have "\<dots> = length (removeAll k (map fst m))"
    by (simp add: removeAll_filter_not_eq) (metis)
  also have "\<dots> = length (map fst m) - 1"
    using d k by (simp add: distinct_remove1_removeAll [symmetric] length_remove1)
  finally show ?thesis by simp
qed

lemma length_foldl_jsmap_delete:
  "distinct (map fst m) \<Longrightarrow> distinct ks \<Longrightarrow> set ks \<subseteq> set (map fst m) \<Longrightarrow>
   length (foldl jsmap_delete m ks) = length m - length ks"
proof (induction ks arbitrary: m)
  case Nil
  show ?case by simp
next
  case (Cons k ks)
  let ?m1 = "jsmap_delete m k"
  have d1: "distinct (map fst ?m1)"
    using Cons.prems(1) by (simp add: keys_jsmap_delete)
  have sub: "set ks \<subseteq> set (map fst ?m1)"
    using Cons.prems(2,3) by (auto simp: keys_jsmap_delete)
  have "length (foldl jsmap_delete ?m1 ks) = length ?m1 - length ks"
    using d1 sub Cons.prems(2) by (intro Cons.IH) simp_all
  moreover have "length ?m1 = length m - 1"
    using Cons.prems by (intro length_jsmap_delete) simp_all
  ultimately show ?case by simp
qed

lemma jsmap_set_fresh: "k \<notin> set (map fst m) \<Longrightarrow> jsmap_set m k v = m @ [(k, v)]"
  by (induction m) auto



lemma settled_subset: "set (settled_oldest_first t) \<subseteq> set (promises t)"
  by (auto simp: settled_oldest_first_def)

lemma settled_not_pending:
  "entry \<in> set (settled_oldest_first t) \<Longrightarrow> p_status (snd entry) \<noteq> Pending"
  by (auto simp: settled_oldest_first_def)

lemma settled_distinct_keys:
  "distinct (map fst (promises t)) \<Longrightarrow> distinct (map fst (settled_oldest_first t))"
proof -
  assume d: "distinct (map fst (promises t))"
  let ?xs = "filter (\<lambda>entry. p_status (snd entry) \<noteq> Pending) (promises t)"
  have "mset (map fst (settled_oldest_first t)) = mset (map fst ?xs)"
    by (simp add: settled_oldest_first_def)
  moreover have "distinct (map fst ?xs)"
    using d by (rule distinct_map_filter)
  ultimately show ?thesis by (metis mset_eq_imp_distinct_iff)
qed

lemma same_key_same_entry:
  "distinct (map fst m) \<Longrightarrow> e1 \<in> set m \<Longrightarrow> e2 \<in> set m \<Longrightarrow> fst e1 = fst e2 \<Longrightarrow> e1 = e2"
  by (metis eq_key_imp_eq_value prod.collapse)

lemma onInit_over_cap:
  assumes keys: "distinct (map fst (promises t))"
      and fresh: "aid \<notin> set (map fst (promises t))"
      and user: "\<not> isGuardianInternal (map_option fst (tracker_parseStack stack))"
      and cap: "maxTrackedPromises (config t) \<le> length (promises t)"
  shows "length (promises (onInit t aid ''PROMISE'' trigger stack now))
           = length (promises t) - length (settled_oldest_first t) div 5 + 1"
    and "set (promises t) - set (promises (onInit t aid ''PROMISE'' trigger stack now))
           = set (take (length (settled_oldest_first t) div 5) (settled_oldest_first t))"
proof -
  let ?S = "settled_oldest_first t"
  let ?k = "length ?S div 5"
  let ?ks = "map fst (take ?k ?S)"
  let ?m1 = "foldl jsmap_delete (promises t) ?ks"
  let ?p = "\<lparr>asyncId = aid, p_type = ''PROMISE'', triggerAsyncId = trigger,
               createdAt = now, p_stack = stack, p_status = Pending,
               p_file = map_option fst (tracker_parseStack stack),
               p_line = map_option snd (tracker_parseStack stack)\<rparr>"
  have after: "promises (onInit t aid ''PROMISE'' trigger stack now) = jsmap_set ?m1 aid ?p"
    using user cap unfolding onInit_def cleanupOldPromises_def floor_index_fifth
    by (simp add: Let_def)
  have dks: "distinct ?ks"
    using settled_distinct_keys [OF keys] by (simp add: take_map [symmetric] distinct_take)
  have sub: "set ?ks \<subseteq> set (map fst (promises t))"
    using settled_subset [of t] set_take_subset [of ?k ?S] by auto
  have len1: "length ?m1 = length (promises t) - ?k"
    using length_foldl_jsmap_delete [OF keys dks sub] by simp
  have set1: "set ?m1 = {entry \<in> set (promises t). fst entry \<notin> set ?ks}"
    by (rule set_foldl_jsmap_delete_eq)
  have fresh1: "aid \<notin> set (map fst ?m1)"
    using fresh set1 by auto
  have app: "jsmap_set ?m1 aid ?p = ?m1 @ [(aid, ?p)]"
    using fresh1 by (rule jsmap_set_fresh)
  show "length (promises (onInit t aid ''PROMISE'' trigger stack now))
           = length (promises t) - ?k + 1"
    unfolding after app using len1 by simp
  have notin: "(aid, ?p) \<notin> set (promises t)"
    using fresh by force
  have "set (promises t) - set (promises (onInit t aid ''PROMISE'' trigger stack now))
          = {entry \<in> set (promises t). fst entry \<in> set ?ks}"
    unfolding after app using set1 notin by auto
  also have "\<dots> = set (take ?k ?S)"
  proof (intro equalityI subsetI)
    fix e assume "e \<in> {entry \<in> set (promises t). fst entry \<in> set ?ks}"
    then have e: "e \<in> set (promises t)" and "fst e \<in> set ?ks" by auto
    then obtain e' where e': "e' \<in> set (take ?k ?S)" "fst e' = fst e" by auto
    then have "e' \<in> set (promises t)"
      using settled_subset [of t] set_take_subset [of ?k ?S] by auto
    then have "e' = e" using same_key_same_entry [OF keys _ e] e'(2) by blast
    then show "e \<in> set (take ?k ?S)" using e'(1) by simp
  next
    fix e assume e: "e \<in> set (take ?k ?S)"
    then have "e \<in> set (promises t)"
      using settled_subset [of t] set_take_subset [of ?k ?S] by auto
    then show "e \<in> {entry \<in> set (promises t). fst entry \<in> set ?ks}"
      using e by auto
  qed
  finally show "set (promises t) - set (promises (onInit t aid ''PROMISE'' trigger stack now))
           = set (take ?k ?S)" .
qed

lemma onInit_under_cap:
  assumes fresh: "aid \<notin> set (map fst (promises t))"
      and user: "\<not> isGuardianInternal (map_option fst (tracker_parseStack stack))"
      and cap: "\<not> maxTrackedPromises (config t) \<le> length (promises t)"
  shows "\<exists>p. promises (onInit t aid ''PROMISE'' trigger stack now) = promises t @ [(aid, p)]"
  using assms by (simp add: onInit_def Let_def jsmap_set_fresh)

text \<open>
  Claim C4, amended: when the map has reached \<open>maxTrackedPromises\<close> entries, \<open>onInit\<close> drops
  the oldest fifth (rounded down) of the entries that are not pending, and then stores
  the new task whether or not anything was dropped. For a task of user code with a new
  id, the size after \<open>onInit\<close> is the size before, less the number dropped, plus one; no
  pending entry is ever dropped. The size is therefore not bounded by
  \<open>maxTrackedPromises\<close>: while fewer than five entries are settled, nothing is dropped.
\<close>

theorem onInit_drops_fifth_of_settled_then_inserts:
  assumes keys: "distinct (map fst (promises t))"
      and fresh: "aid \<notin> set (map fst (promises t))"
      and user: "\<not> isGuardianInternal (map_option fst (tracker_parseStack stack))"
  shows "length (promises (onInit t aid ''PROMISE'' trigger stack now))
           = (if maxTrackedPromises (config t) \<le> length (promises t)
              then length (promises t) - length (settled_oldest_first t) div 5
              else length (promises t)) + 1
       \<and> set (promises t) - set (promises (onInit t aid ''PROMISE'' trigger stack now))
           = (if maxTrackedPromises (config t) \<le> length (promises t)
              then set (take (length (settled_oldest_first t) div 5) (settled_oldest_first t))
              else {})
       \<and> (\<forall>entry \<in> set (promises t). p_status (snd entry) = Pending \<longrightarrow>
             entry \<in> set (promises (onInit t aid ''PROMISE'' trigger stack now)))"
proof (cases "maxTrackedPromises (config t) \<le> length (promises t)")
  case True
  note oc = onInit_over_cap [OF keys fresh user True, of trigger now]
  have "entry \<in> set (promises (onInit t aid ''PROMISE'' trigger stack now))"
    if e: "entry \<in> set (promises t)" "p_status (snd entry) = Pending" for entry
  proof (rule ccontr)
    assume "entry \<notin> set (promises (onInit t aid ''PROMISE'' trigger stack now))"
    then have "entry \<in> set (take (length (settled_oldest_first t) div 5) (settled_oldest_first t))"
      using e(1) oc(2) by blast
    then have "entry \<in> set (settled_oldest_first t)"
      using set_take_subset by fastforce
    then show False using settled_not_pending e(2) by blast
  qed
  then show ?thesis using True oc by simp
next
  case False
  obtain p where "promises (onInit t aid ''PROMISE'' trigger stack now) = promises t @ [(aid, p)]"
    using onInit_under_cap [OF fresh user False] by blast
  then show ?thesis using False by auto
qed



text \<open>
  Claim C4, as the specification states it, fails: with \<open>maxTrackedPromises\<close> = 10, eleven
  task-init events for promises of user code that are all still pending leave eleven
  entries in the map; the cleanup finds no settled entry to drop.
\<close>

theorem tracker_map_exceeds_maxTrackedPromises:
  "length (promises (tracker_run (new_PromiseTracker small_config) eleven_inits)) = 11
   \<and> maxTrackedPromises (config (tracker_run (new_PromiseTracker small_config) eleven_inits)) = 10"
  by (simp add: tracker_run_def eleven_inits_def new_PromiseTracker_def small_config_def
      onInit_def Let_def parse_user_stack user_file_not_internal cleanupOldPromises_def
      settled_oldest_first_def floor_index_def)

theorem onInit_drops_fifth_of_settled_then_inserts_witness:
  "distinct (map fst (promises six_tracked))
   \<and> 7 \<notin> set (map fst (promises six_tracked))
   \<and> \<not> isGuardianInternal (map_option fst (tracker_parseStack user_stack))
   \<and> length (promises (onInit six_tracked 7 ''PROMISE'' 0 user_stack 1000)) = 6
   \<and> set (promises six_tracked)
        - set (promises (onInit six_tracked 7 ''PROMISE'' 0 user_stack 1000))
       = {(5, settled_entry 5 10)}
   \<and> (6, pending_entry 6 5) \<in> set (promises (onInit six_tracked 7 ''PROMISE'' 0 user_stack 1000))"
proof -
  have h1: "distinct (map fst (promises six_tracked))"
    by (simp add: six_tracked_def)
  have h2: "7 \<notin> set (map fst (promises six_tracked))"
    by (simp add: six_tracked_def)
  have h3: "\<not> isGuardianInternal (map_option fst (tracker_parseStack user_stack))"
    by (simp add: parse_user_stack user_file_not_internal)
  have s: "settled_oldest_first six_tracked
             = [(5, settled_entry 5 10), (4, settled_entry 4 20), (3, settled_entry 3 30),
                (2, settled_entry 2 40), (1, settled_entry 1 50)]"
    by (simp add: settled_oldest_first_def six_tracked_def settled_entry_def pending_entry_def)
  have c: "maxTrackedPromises (config six_tracked) \<le> length (promises six_tracked)"
    by (simp add: six_tracked_def)
  have p: "(6, pending_entry 6 5) \<in> set (promises six_tracked)
           \<and> p_status (snd (6, pending_entry 6 5)) = Pending"
    by (simp add: six_tracked_def pending_entry_def)
  note t = onInit_drops_fifth_of_settled_then_inserts [OF h1 h2 h3, of 0 1000]
  have "length (promises (onInit six_tracked 7 ''PROMISE'' 0 user_stack 1000)) = 6"
    using t c s by (simp add: six_tracked_def)
  moreover have "set (promises six_tracked)
        - set (promises (onInit six_tracked 7 ''PROMISE'' 0 user_stack 1000))
       = {(5, settled_entry 5 10)}"
    using t c s by simp
  moreover have "(6, pending_entry 6 5)
        \<in> set (promises (onInit six_tracked 7 ''PROMISE'' 0 user_stack 1000))"
    using t p by blast
  ultimately show ?thesis using h1 h2 h3 by blast
qed

end
